theory Spec2Isabelle
  imports Main
begin

section \<open>Errors and values\<close>

text \<open>
  The exceptions the sources throw.  \<open>Error\<close> is the plain JavaScript \<^verbatim>\<open>Error\<close>,
  the two others are the classes of the \<^verbatim>\<open>errors\<close> module; each carries its message.
\<close>

datatype error =
    Error string
  | InvalidOperationError string
  | NotImplementedError string

fun isInvalidOperationError :: "error \<Rightarrow> bool" where
  "isInvalidOperationError (InvalidOperationError m) = True"
| "isInvalidOperationError e = False"

text \<open>
  JavaScript values as far as their truthiness goes: numbers are the integers and
  \<open>NaN\<close>, objects are references.
\<close>

datatype js_value =
    Undefined
  | Null
  | Boolean bool
  | Number int
  | NaN
  | String string
  | Object nat

fun truthy :: "js_value \<Rightarrow> bool" where
  "truthy Undefined = False"
| "truthy Null = False"
| "truthy (Boolean b) = b"
| "truthy (Number n) = (n \<noteq> 0)"
| "truthy NaN = False"
| "truthy (String s) = (s \<noteq> [])"
| "truthy (Object r) = True"

section \<open>KeyValueCache (src/utils/KeyValueCache.ts)\<close>

text \<open>
  The cache wraps a \<^verbatim>\<open>Map\<close>: a partial function from keys to values.  A key can be
  stored with the value \<open>Undefined\<close>, which \<^verbatim>\<open>has\<close> tells apart from an absent key.
\<close>

record 'k KeyValueCache =
  cacheItems :: "'k \<Rightarrow> js_value option"

definition Map_has :: "('k \<Rightarrow> js_value option) \<Rightarrow> 'k \<Rightarrow> bool" where
  "Map_has m key = (m key \<noteq> None)"

definition Map_get :: "('k \<Rightarrow> js_value option) \<Rightarrow> 'k \<Rightarrow> js_value" where
  "Map_get m key = (case m key of None \<Rightarrow> Undefined | Some v \<Rightarrow> v)"

definition Map_set :: "('k \<Rightarrow> js_value option) \<Rightarrow> 'k \<Rightarrow> js_value \<Rightarrow> ('k \<Rightarrow> js_value option)" where
  "Map_set m key v = m(key \<mapsto> v)"

definition Map_delete :: "('k \<Rightarrow> js_value option) \<Rightarrow> 'k \<Rightarrow> ('k \<Rightarrow> js_value option)" where
  "Map_delete m key = m(key := None)"

text \<open>\<^verbatim>\<open>get(key) { return this.cacheItems.get(key) || undefined; }\<close>\<close>

definition get :: "'k KeyValueCache \<Rightarrow> 'k \<Rightarrow> js_value" where
  "get c key = (let v = Map_get (cacheItems c) key in if truthy v then v else Undefined)"

definition set_item :: "'k KeyValueCache \<Rightarrow> 'k \<Rightarrow> js_value \<Rightarrow> 'k KeyValueCache" where
  "set_item c key v = c\<lparr>cacheItems := Map_set (cacheItems c) key v\<rparr>"

definition removeByKey :: "'k KeyValueCache \<Rightarrow> 'k \<Rightarrow> 'k KeyValueCache" where
  "removeByKey c key = c\<lparr>cacheItems := Map_delete (cacheItems c) key\<rparr>"

text \<open>
  \<open>getOrCreate\<close>: \<^verbatim>\<open>createFunc\<close> is a callback; it is run in a world \<open>'w\<close> of its own so
  that calling it is visible.  \<^verbatim>\<open>item == null\<close> holds of \<open>Null\<close> and \<open>Undefined\<close>.
\<close>

definition getOrCreate ::
  "'k KeyValueCache \<Rightarrow> 'k \<Rightarrow> ('w \<Rightarrow> js_value \<times> 'w) \<Rightarrow> 'w \<Rightarrow> js_value \<times> 'k KeyValueCache \<times> 'w" where
  "getOrCreate c key createFunc w =
     (let item = get c key in
      if item = Null \<or> item = Undefined
      then (case createFunc w of (item', w') \<Rightarrow> (item', set_item c key item', w'))
      else (item, c, w))"

definition replaceKey :: "'k KeyValueCache \<Rightarrow> 'k \<Rightarrow> 'k \<Rightarrow> error + 'k KeyValueCache" where
  "replaceKey c key newKey =
     (if \<not> Map_has (cacheItems c) key then Inl (Error ''Key not found.'')
      else let v = Map_get (cacheItems c) key;
               m1 = Map_delete (cacheItems c) key;
               m2 = Map_set m1 newKey v
           in Inr (c\<lparr>cacheItems := m2\<rparr>))"

section \<open>First node on the line (Node.isFirstNodeOnLine, src/DefaultFileSystemHost.ts lines 786-801)\<close>

text \<open>
  \<open>charAt text i\<close> is \<^verbatim>\<open>text[i]\<close>: \<open>None\<close> (JavaScript's \<^verbatim>\<open>undefined\<close>) beyond the end.
\<close>

definition charAt :: "string \<Rightarrow> nat \<Rightarrow> char option" where
  "charAt text i = (if i < length text then Some (text ! i) else None)"

text \<open>
  The loop \<^verbatim>\<open>for (let i = startPos - 1; i >= 0; i--)\<close>; the argument \<open>n\<close> is \<open>i + 1\<close>,
  so \<open>0\<close> is the exit of the loop, after which the method returns false.
\<close>

fun isFirstNodeOnLine_loop :: "string \<Rightarrow> nat \<Rightarrow> bool" where
  "isFirstNodeOnLine_loop sourceFileText 0 = False"
| "isFirstNodeOnLine_loop sourceFileText (Suc i) =
     (let currentChar = charAt sourceFileText i in
      if currentChar = Some CHR '' '' \<or> currentChar = Some (CHR 0x09)
      then isFirstNodeOnLine_loop sourceFileText i
      else if currentChar = Some (CHR 0x0A) then True
      else False)"

text \<open>
  \<open>sourceFileText\<close> is what \<^verbatim>\<open>this.sourceFile.getFullText()\<close> returns and \<open>startPos\<close>
  what \<^verbatim>\<open>this.getStart()\<close> returns.
\<close>

definition isFirstNodeOnLine :: "string \<Rightarrow> int \<Rightarrow> bool" where
  "isFirstNodeOnLine sourceFileText startPos =
     (if startPos \<le> 0 then False else isFirstNodeOnLine_loop sourceFileText (nat startPos))"

section \<open>Compiler nodes, wrappers and the wrapper cache\<close>

text \<open>
  A compiler node (\<^verbatim>\<open>ts.Node\<close>) is an immutable tree.  \<open>ts_id\<close> stands for the identity
  of the object: two compiler nodes are the same object iff they have the same \<open>ts_id\<close>.
  The parent pointers of the compiler are kept beside the trees (\<open>parentOf\<close> below).
\<close>

datatype SyntaxKind =
    SourceFile
  | SyntaxList
  | EndOfFileToken
  | ExpressionStatement
  | FirstPunctuation
  | ModuleDeclaration
  | ModuleBlock
  | FunctionDeclaration
  | Block
  | OtherKind nat

datatype ts_Node =
  TsNode (ts_id: nat) (ts_kind: SyntaxKind) (ts_pos: int) (ts_end: int) (ts_getChildren: "ts_Node list")

text \<open>
  The class \<^verbatim>\<open>Node\<close> (a wrapper): \<open>private_compilerNode\<close> is the field
  \<^verbatim>\<open>_compilerNode\<close>, \<open>None\<close> once the wrapper is disposed.  Wrappers are objects: they
  live in a heap and are named by references.
\<close>

type_synonym ref = nat

record Node =
  global :: nat
  private_compilerNode :: "ts_Node option"
  sourceFile :: ref

text \<open>
  The state every operation runs in: the heap of wrappers with its allocation pointer,
  the node cache of the container's compiler factory (keyed by the identity of the
  compiler node), the compiler's parent pointers (keyed likewise), and a history of the
  calls of \<^verbatim>\<open>disposeOnlyThis\<close>: the wrapper and the compiler node it was bound to, in
  the order of the calls.  The history is only written, never read, by the operations.
\<close>

record world =
  containerId :: nat
  nodeCache :: "nat \<Rightarrow> ref option"
  heap :: "ref \<Rightarrow> Node"
  nextRef :: ref
  parentOf :: "nat \<Rightarrow> ts_Node option"
  disposeLog :: "(ref \<times> ts_Node option) list"

text \<open>
  An operation returns a value or throws, and leaves a state either way: what was
  written before an exception stays written.
\<close>

type_synonym 'a M = "world \<Rightarrow> (error + 'a) \<times> world"

definition returnM :: "'a \<Rightarrow> 'a M" where
  "returnM x s = (Inr x, s)"

definition throwM :: "error \<Rightarrow> 'a M" where
  "throwM e s = (Inl e, s)"

definition bindM :: "'a M \<Rightarrow> ('a \<Rightarrow> 'b M) \<Rightarrow> 'b M" where
  "bindM m f s = (case m s of (Inl e, s') \<Rightarrow> (Inl e, s') | (Inr x, s') \<Rightarrow> f x s')"

text \<open>\<^verbatim>\<open>a || b\<close> and \<^verbatim>\<open>a && b\<close> on conditions that may throw: the right one runs only when needed.\<close>

definition orM :: "bool M \<Rightarrow> bool M \<Rightarrow> bool M" where
  "orM a b = bindM a (\<lambda>x. if x then returnM True else b)"

definition andM :: "bool M \<Rightarrow> bool M \<Rightarrow> bool M" where
  "andM a b = bindM a (\<lambda>x. if x then b else returnM False)"

fun mapM :: "('a \<Rightarrow> 'b M) \<Rightarrow> 'a list \<Rightarrow> 'b list M" where
  "mapM f [] = returnM []"
| "mapM f (x # xs) = bindM (f x) (\<lambda>y. bindM (mapM f xs) (\<lambda>ys. returnM (y # ys)))"

text \<open>\<^verbatim>\<open>getSourceFile() { return this.sourceFile; }\<close>\<close>

definition getSourceFile :: "ref \<Rightarrow> ref M" where
  "getSourceFile this s = (Inr (sourceFile (heap s this)), s)"

subsection \<open>The compiler factory\<close>

text \<open>
  Modelled from the spec: the class \<^verbatim>\<open>CompilerFactory\<close> is not among the sources.
  Section 4.2 and the lifecycle paragraph of section 3: \<^verbatim>\<open>getNodeFromCompilerNode(cn, sf)\<close>
  returns the stored wrapper if \<open>cn\<close> is in the cache, otherwise constructs one (bound to
  \<open>cn\<close>, with source file \<open>sf\<close>, in the factory's container) and registers it.
\<close>

definition getNodeFromCompilerNode :: "ts_Node \<Rightarrow> ref \<Rightarrow> ref M" where
  "getNodeFromCompilerNode cn sf s =
     (case nodeCache s (ts_id cn) of
        Some w \<Rightarrow> (Inr w, s)
      | None \<Rightarrow>
          (let w = nextRef s in
           (Inr w, s\<lparr>nodeCache := (nodeCache s)(ts_id cn \<mapsto> w),
                      heap := (heap s)(w := \<lparr>global = containerId s,
                                              private_compilerNode = Some cn,
                                              sourceFile = sf\<rparr>),
                      nextRef := Suc w\<rparr>)))"

text \<open>
  Modelled from the spec: \<^verbatim>\<open>removeNodeFromCache(w)\<close> "deletes w's entry; no-op if
  already absent" (section 4.2).  The entry of \<open>w\<close> is the one under the compiler node it
  is bound to; a wrapper bound to nothing has none.
\<close>

definition removeNodeFromCache :: "ref \<Rightarrow> unit M" where
  "removeNodeFromCache w s =
     (case private_compilerNode (heap s w) of
        None \<Rightarrow> (Inr (), s)
      | Some cn \<Rightarrow> (Inr (), s\<lparr>nodeCache := (nodeCache s)(ts_id cn := None)\<rparr>))"

text \<open>
  Modelled from the spec: \<^verbatim>\<open>errors.throwIfNullOrUndefined\<close> is not among the sources;
  the failure of an \<^verbatim>\<open>...OrThrow\<close> operation is an InvalidOperation (sections 4.3, 7).
\<close>

definition throwIfNullOrUndefined :: "'a option \<Rightarrow> string \<Rightarrow> 'a M" where
  "throwIfNullOrUndefined v message =
     (case v of None \<Rightarrow> throwM (InvalidOperationError message) | Some x \<Rightarrow> returnM x)"

subsection \<open>The class Node (src/DefaultFileSystemHost.ts from line 118, the repository's compiler/common/Node.ts)\<close>

text \<open>The getter \<^verbatim>\<open>compilerNode\<close>: it throws when the wrapper has no compiler node.\<close>

definition compilerNode :: "ref \<Rightarrow> ts_Node M" where
  "compilerNode this s =
     (case private_compilerNode (heap s this) of
        None \<Rightarrow> (Inl (InvalidOperationError
                  ''Attempted to get information from a node that was removed from the AST.''), s)
      | Some cn \<Rightarrow> (Inr cn, s))"

text \<open>
  \<^verbatim>\<open>disposeOnlyThis() { this.global.compilerFactory.removeNodeFromCache(this); this._compilerNode = undefined; }\<close>
  The first step of the model writes the call into the history.
\<close>

definition disposeOnlyThis :: "ref \<Rightarrow> unit M" where
  "disposeOnlyThis this =
     bindM (\<lambda>s. (Inr (), s\<lparr>disposeLog := disposeLog s @ [(this, private_compilerNode (heap s this))]\<rparr>)) (\<lambda>_.
     bindM (removeNodeFromCache this) (\<lambda>_.
       (\<lambda>s. (Inr (), s\<lparr>heap := (heap s)(this := (heap s this)\<lparr>private_compilerNode := None\<rparr>)\<rparr>))))"

text \<open>\<^verbatim>\<open>replaceCompilerNode(compilerNode) { this._compilerNode = compilerNode; }\<close>\<close>

definition replaceCompilerNode :: "ref \<Rightarrow> ts_Node \<Rightarrow> unit M" where
  "replaceCompilerNode this cn s =
     (Inr (), s\<lparr>heap := (heap s)(this := (heap s this)\<lparr>private_compilerNode := Some cn\<rparr>)\<rparr>)"

text \<open>\<^verbatim>\<open>getKind\<close>, \<^verbatim>\<open>getPos\<close> and \<^verbatim>\<open>getEnd\<close> read a field of \<^verbatim>\<open>this.compilerNode\<close>.\<close>

definition getKind :: "ref \<Rightarrow> SyntaxKind M" where
  "getKind this = bindM (compilerNode this) (\<lambda>cn. returnM (ts_kind cn))"

definition getPos :: "ref \<Rightarrow> int M" where
  "getPos this = bindM (compilerNode this) (\<lambda>cn. returnM (ts_pos cn))"

definition getEnd :: "ref \<Rightarrow> int M" where
  "getEnd this = bindM (compilerNode this) (\<lambda>cn. returnM (ts_end cn))"

text \<open>\<^verbatim>\<open>return this.getPos() <= pos && end <= this.getEnd();\<close>\<close>

definition containsRange :: "ref \<Rightarrow> int \<Rightarrow> int \<Rightarrow> bool M" where
  "containsRange this p e =
     andM (bindM (getPos this) (\<lambda>tp. returnM (tp \<le> p)))
          (bindM (getEnd this) (\<lambda>te. returnM (e \<le> te)))"

text \<open>
  \<^verbatim>\<open>this.compilerNode.getChildren().map(n => factory.getNodeFromCompilerNode(n, this.sourceFile))\<close>
\<close>

definition getChildren :: "ref \<Rightarrow> ref list M" where
  "getChildren this =
     bindM (compilerNode this) (\<lambda>cn.
       mapM (\<lambda>n. bindM (getSourceFile this) (\<lambda>sf. getNodeFromCompilerNode n sf)) (ts_getChildren cn))"

text \<open>
  The generator \<^verbatim>\<open>getChildrenIterator\<close>, in two parts.  Its start evaluates
  \<^verbatim>\<open>this.compilerNode.getChildren(this.sourceFile.compilerNode)\<close>, which reads both
  getters; then each step wraps one compiler child, when the consumer asks for it.
\<close>

definition getChildrenIterator_start :: "ref \<Rightarrow> ts_Node list M" where
  "getChildrenIterator_start this =
     bindM (compilerNode this) (\<lambda>cn.
     bindM (getSourceFile this) (\<lambda>sf.
     bindM (compilerNode sf) (\<lambda>_.
       returnM (ts_getChildren cn))))"

definition getChildrenIterator_yield :: "ref \<Rightarrow> ts_Node \<Rightarrow> ref M" where
  "getChildrenIterator_yield this compilerChild =
     bindM (getSourceFile this) (\<lambda>sf. getNodeFromCompilerNode compilerChild sf)"

text \<open>\<^verbatim>\<open>getParent\<close> and \<^verbatim>\<open>getParentOrThrow\<close>.\<close>

definition getParent :: "ref \<Rightarrow> ref option M" where
  "getParent this =
     bindM (compilerNode this) (\<lambda>cn.
       (\<lambda>s. (case parentOf s (ts_id cn) of
               None \<Rightarrow> returnM None
             | Some p \<Rightarrow>
                 bindM (getSourceFile this) (\<lambda>sf.
                 bindM (getNodeFromCompilerNode p sf) (\<lambda>w. returnM (Some w)))) s))"

definition getParentOrThrow :: "ref \<Rightarrow> ref M" where
  "getParentOrThrow this =
     bindM (getParent this) (\<lambda>p.
       throwIfNullOrUndefined p ''A parent is required to do this operation.'')"

text \<open>\<^verbatim>\<open>getChildAtPos\<close>: the range test, then the first child whose range holds \<open>p\<close>.\<close>

fun getChildAtPos_loop :: "ref \<Rightarrow> int \<Rightarrow> ts_Node list \<Rightarrow> ref option M" where
  "getChildAtPos_loop this p [] = returnM None"
| "getChildAtPos_loop this p (c # cs) =
     bindM (getChildrenIterator_yield this c) (\<lambda>child.
     bindM (andM (bindM (getPos child) (\<lambda>cp. returnM (p \<ge> cp)))
                 (bindM (getEnd child) (\<lambda>ce. returnM (p < ce)))) (\<lambda>found.
       if found then returnM (Some child) else getChildAtPos_loop this p cs))"

definition getChildAtPos :: "ref \<Rightarrow> int \<Rightarrow> ref option M" where
  "getChildAtPos this p =
     bindM (orM (bindM (getPos this) (\<lambda>tp. returnM (p < tp)))
                (bindM (getEnd this) (\<lambda>te. returnM (p \<ge> te)))) (\<lambda>outside.
       if outside then returnM None
       else bindM (getChildrenIterator_start this) (\<lambda>cs. getChildAtPos_loop this p cs))"

text \<open>
  \<^verbatim>\<open>getParentSyntaxList\<close>: the children of the parent in order, up to this node or
  the first child that starts after it.
\<close>

fun getParentSyntaxList_loop :: "ref \<Rightarrow> int \<Rightarrow> int \<Rightarrow> ref list \<Rightarrow> ref option M" where
  "getParentSyntaxList_loop this p e [] = returnM None"
| "getParentSyntaxList_loop this p e (child # rest) =
     bindM (orM (bindM (getPos child) (\<lambda>cp. returnM (cp > p))) (returnM (child = this))) (\<lambda>stop.
       if stop then returnM None
       else
         bindM (andM (bindM (getKind child) (\<lambda>k. returnM (k = SyntaxList)))
               (andM (bindM (getPos child) (\<lambda>cp. returnM (cp \<le> p)))
                     (bindM (getEnd child) (\<lambda>ce. returnM (ce \<ge> e))))) (\<lambda>found.
           if found then returnM (Some child) else getParentSyntaxList_loop this p e rest))"

definition getParentSyntaxList :: "ref \<Rightarrow> ref option M" where
  "getParentSyntaxList this =
     bindM (getParent this) (\<lambda>parent.
       case parent of
         None \<Rightarrow> returnM None
       | Some parent \<Rightarrow>
           bindM (getPos this) (\<lambda>p.
           bindM (getEnd this) (\<lambda>e.
           bindM (getChildren parent) (\<lambda>children.
             getParentSyntaxList_loop this p e children))))"

text \<open>\<^verbatim>\<open>this.getParentSyntaxList() || this.getParentOrThrow()\<close>\<close>

definition getParentSyntaxList_or_ParentOrThrow :: "ref \<Rightarrow> ref M" where
  "getParentSyntaxList_or_ParentOrThrow this =
     bindM (getParentSyntaxList this) (\<lambda>sl.
       case sl of Some l \<Rightarrow> returnM l | None \<Rightarrow> getParentOrThrow this)"

text \<open>
  \<^verbatim>\<open>getPreviousSiblings\<close>: \<^verbatim>\<open>splice(0, 0, child)\<close> puts each child in front, and the
  loop breaks at this node.
\<close>

fun getPreviousSiblings_loop :: "ref \<Rightarrow> ref \<Rightarrow> ts_Node list \<Rightarrow> ref list \<Rightarrow> ref list M" where
  "getPreviousSiblings_loop this parent [] previousSiblings = returnM previousSiblings"
| "getPreviousSiblings_loop this parent (c # cs) previousSiblings =
     bindM (getChildrenIterator_yield parent c) (\<lambda>child.
       if child = this then returnM previousSiblings
       else getPreviousSiblings_loop this parent cs (child # previousSiblings))"

definition getPreviousSiblings :: "ref \<Rightarrow> ref list M" where
  "getPreviousSiblings this =
     bindM (getParentSyntaxList_or_ParentOrThrow this) (\<lambda>parent.
     bindM (getChildrenIterator_start parent) (\<lambda>cs.
       getPreviousSiblings_loop this parent cs []))"

text \<open>
  \<^verbatim>\<open>getNextSiblings\<close>: every child after this node is pushed; the loop does not break.
\<close>

fun getNextSiblings_loop :: "ref \<Rightarrow> ref \<Rightarrow> ts_Node list \<Rightarrow> bool \<Rightarrow> ref list \<Rightarrow> ref list M" where
  "getNextSiblings_loop this parent [] foundChild nextSiblings = returnM nextSiblings"
| "getNextSiblings_loop this parent (c # cs) foundChild nextSiblings =
     bindM (getChildrenIterator_yield parent c) (\<lambda>child.
       if \<not> foundChild then getNextSiblings_loop this parent cs (child = this) nextSiblings
       else getNextSiblings_loop this parent cs foundChild (nextSiblings @ [child]))"

definition getNextSiblings :: "ref \<Rightarrow> ref list M" where
  "getNextSiblings this =
     bindM (getParentSyntaxList_or_ParentOrThrow this) (\<lambda>parent.
     bindM (getChildrenIterator_start parent) (\<lambda>cs.
       getNextSiblings_loop this parent cs False []))"

subsection \<open>Operations that may not return\<close>

text \<open>
  \<^verbatim>\<open>dispose\<close> and \<^verbatim>\<open>getDescendantAtPos\<close> follow the wrappers the cache hands out, so
  nothing in the code bounds them: they are partial functions, \<open>None\<close> when the call
  does not return.
\<close>

type_synonym 'a P = "world \<Rightarrow> ((error + 'a) \<times> world) option"

definition liftP :: "'a M \<Rightarrow> 'a P" where
  "liftP m s = Some (m s)"

definition bindP :: "'a P \<Rightarrow> ('a \<Rightarrow> 'b P) \<Rightarrow> 'b P" where
  "bindP m f s =
     (case m s of
        None \<Rightarrow> None
      | Some (Inl e, s') \<Rightarrow> Some (Inl e, s')
      | Some (Inr x, s') \<Rightarrow> f x s')"

lemma bindP_mono [partial_function_mono]:
  fixes B :: "('x \<Rightarrow> 'y option) \<Rightarrow> 'a P"
  assumes mf: "\<And>s. mono_option (\<lambda>f. B f s)" and mg: "\<And>y s. mono_option (\<lambda>f. C y f s)"
  shows "mono_option (\<lambda>f. bindP (B f) (\<lambda>y. C y f) s)"
proof (rule monotoneI)
  fix f g :: "'x \<Rightarrow> 'y option"
  assume fg: "fun_ord option_ord f g"
  from mf[of s] fg have 1: "option_ord (B f s) (B g s)" by (rule monotoneD[of _ _ _ f g])
  have 2: "option_ord (C y f s') (C y g s')" for y s'
    using mg[of y s'] fg by (rule monotoneD[of _ _ _ f g])
  show "option_ord (bindP (B f) (\<lambda>y. C y f) s) (bindP (B g) (\<lambda>y. C y g) s)"
  proof (cases "B f s")
    case None
    then show ?thesis by (simp add: bindP_def flat_ord_def)
  next
    case (Some r)
    with 1 have g: "B g s = Some r" by (simp add: flat_ord_def)
    obtain v s' where r: "r = (v, s')" by (cases r)
    show ?thesis
    proof (cases v)
      case (Inl e)
      with Some g r show ?thesis by (simp add: bindP_def flat_ord_def)
    next
      case (Inr x)
      with Some g r 2[of x s'] show ?thesis by (simp add: bindP_def)
    qed
  qed
qed



text \<open>\<^verbatim>\<open>for (const x of xs) f(x);\<close> over an array.\<close>

fun forEachP :: "('a \<Rightarrow> unit P) \<Rightarrow> 'a list \<Rightarrow> unit P" where
  "forEachP f [] s = Some (Inr (), s)"
| "forEachP f (x # xs) s = bindP (f x) (\<lambda>_. forEachP f xs) s"

lemma forEachP_mono [partial_function_mono]:
  assumes "\<And>x s. mono_option (\<lambda>f. B f x s)"
  shows "mono_option (\<lambda>f. forEachP (B f) xs s)"
proof (induction xs arbitrary: s)
  case Nil
  show ?case by (simp add: option.const_mono)
next
  case (Cons x xs)
  show ?case
    unfolding forEachP.simps
    by (rule bindP_mono) (rule assms, rule Cons.IH)
qed

text \<open>
  \<^verbatim>\<open>dispose() { for (const child of this.getChildren()) child.dispose(); this.disposeOnlyThis(); }\<close>
\<close>

partial_function (option) dispose :: "ref \<Rightarrow> world \<Rightarrow> ((error + unit) \<times> world) option" where
  "dispose this s =
     bindP (liftP (getChildren this)) (\<lambda>children.
     bindP (forEachP dispose children) (\<lambda>_.
       liftP (disposeOnlyThis this))) s"

text \<open>
  \<^verbatim>\<open>setSourceFile(sourceFile) { this.sourceFile = sourceFile;\<close>
  \<^verbatim>\<open>  for (const child of this.getChildren()) child.setSourceFile(sourceFile); }\<close>
\<close>

partial_function (option) setSourceFile :: "ref \<Rightarrow> ref \<Rightarrow> world \<Rightarrow> ((error + unit) \<times> world) option" where
  "setSourceFile this sf s =
     bindP (liftP (\<lambda>s. (Inr (), s\<lparr>heap := (heap s)(this := (heap s this)\<lparr>sourceFile := sf\<rparr>)\<rparr>))) (\<lambda>_.
     bindP (liftP (getChildren this)) (\<lambda>children.
       forEachP (\<lambda>child. setSourceFile child sf) children)) s"

text \<open>
  \<^verbatim>\<open>getDescendantAtPos\<close>: the loop \<^verbatim>\<open>while (true)\<close> with its variable \<open>node\<close>, which
  starts undefined.
\<close>

partial_function (option) getDescendantAtPos_loop ::
  "ref \<Rightarrow> ref option \<Rightarrow> int \<Rightarrow> world \<Rightarrow> ((error + ref option) \<times> world) option" where
  "getDescendantAtPos_loop this node p s =
     bindP (liftP (getChildAtPos (case node of None \<Rightarrow> this | Some n \<Rightarrow> n) p)) (\<lambda>nextNode.
       case nextNode of
         None \<Rightarrow> liftP (returnM node)
       | Some n \<Rightarrow> getDescendantAtPos_loop this (Some n) p) s"

definition getDescendantAtPos :: "ref \<Rightarrow> int \<Rightarrow> ref option P" where
  "getDescendantAtPos this p = getDescendantAtPos_loop this None p"

subsection \<open>First child (Node.getFirstChild, Node.getFirstChildByKind)\<close>

text \<open>
  \<^verbatim>\<open>getFirstChild(condition?)\<close> walks the children iterator and returns the first child
  the condition accepts (any child when there is no condition).
\<close>

fun getFirstChild_loop :: "ref \<Rightarrow> (ref \<Rightarrow> bool M) option \<Rightarrow> ts_Node list \<Rightarrow> ref option M" where
  "getFirstChild_loop this condition [] = returnM None"
| "getFirstChild_loop this condition (c # cs) =
     bindM (getChildrenIterator_yield this c) (\<lambda>child.
     bindM (case condition of None \<Rightarrow> returnM True | Some f \<Rightarrow> f child) (\<lambda>matches.
       if matches then returnM (Some child) else getFirstChild_loop this condition cs))"

definition getFirstChild :: "ref \<Rightarrow> (ref \<Rightarrow> bool M) option \<Rightarrow> ref option M" where
  "getFirstChild this condition =
     bindM (getChildrenIterator_start this) (\<lambda>cs. getFirstChild_loop this condition cs)"

definition getFirstChildByKind :: "ref \<Rightarrow> SyntaxKind \<Rightarrow> ref option M" where
  "getFirstChildByKind this k =
     getFirstChild this (Some (\<lambda>child. bindM (getKind child) (\<lambda>ck. returnM (ck = k))))"

subsection \<open>What the sources leave open\<close>







subsection \<open>The child syntax list (Node.getChildSyntaxList, src/DefaultFileSystemHost.ts lines 410-430)\<close>





section \<open>The tree reconciler\<close>

subsection \<open>The straight replacement\<close>


text \<open>
  Modelled from the spec: \<^verbatim>\<open>StraightReplacementNodeHandler\<close> is not among the sources.
  Section 4.5: for every pair of child compiler nodes the handler is invoked
  recursively, then the current wrapper is rebound with \<^verbatim>\<open>replaceCompilerNode\<close>; it fails
  if the kinds differ or the child counts differ.  \<open>straightReplacement_children\<close> is the
  walk over the two children iterators, \<open>f\<close> the handler for a pair.
\<close>

fun straightReplacement_children ::
  "(ref \<Rightarrow> ref \<Rightarrow> unit P) \<Rightarrow> error \<Rightarrow> ref \<Rightarrow> ref \<Rightarrow> ts_Node list \<Rightarrow> ts_Node list \<Rightarrow> unit P" where
  "straightReplacement_children f e currentNode newNode [] [] s = Some (Inr (), s)"
| "straightReplacement_children f e currentNode newNode [] (n # ns) s = Some (Inl e, s)"
| "straightReplacement_children f e currentNode newNode (c # cs) [] s = Some (Inl e, s)"
| "straightReplacement_children f e currentNode newNode (c # cs) (n # ns) s =
     bindP (liftP (getChildrenIterator_yield currentNode c)) (\<lambda>a.
     bindP (liftP (getChildrenIterator_yield newNode n)) (\<lambda>b.
     bindP (f a b) (\<lambda>_.
       straightReplacement_children f e currentNode newNode cs ns))) s"

lemma straightReplacement_children_mono [partial_function_mono]:
  assumes m: "\<And>a b s. mono_option (\<lambda>f. B f a b s)"
  shows "mono_option (\<lambda>f. straightReplacement_children (B f) e currentNode newNode cs ns s)"
proof (induction cs arbitrary: ns s)
  case Nil
  show ?case by (cases ns) (simp_all add: option.const_mono)
next
  case (Cons c cs)
  show ?case
  proof (cases ns)
    case Nil
    then show ?thesis by (simp add: option.const_mono)
  next
    case (Cons n ns')
    show ?thesis
      unfolding Cons straightReplacement_children.simps
      by (intro bindP_mono option.const_mono m Cons.IH)
  qed
qed


subsection \<open>UnwrapParentHandler.handleNode (src/unnamed/part_000, lines 161-208)\<close>








section \<open>What the theorems speak of\<close>

text \<open>
  The nodes of a compiler tree: \<open>subtrees\<close> in preorder (the node, then its children's),
  \<open>postorder\<close> with every node after all its descendants.
\<close>

fun subtrees :: "ts_Node \<Rightarrow> ts_Node list" where
  "subtrees (TsNode i k p e cs) = TsNode i k p e cs # concat (map subtrees cs)"

fun postorder :: "ts_Node \<Rightarrow> ts_Node list" where
  "postorder (TsNode i k p e cs) = concat (map postorder cs) @ [TsNode i k p e cs]"

text \<open>
  The cache agrees with a set \<open>N\<close> of compiler nodes when a wrapper registered for a node
  of \<open>N\<close> is an allocated object bound to that very node.  This is the uniqueness
  invariant of the wrapper cache, stated for the nodes at hand.
\<close>

definition cache_ok :: "world \<Rightarrow> ts_Node set \<Rightarrow> bool" where
  "cache_ok s N \<longleftrightarrow>
     (\<forall>n\<in>N. \<forall>w. nodeCache s (ts_id n) = Some w \<longrightarrow>
        w < nextRef s \<and> private_compilerNode (heap s w) = Some n)"

text \<open>
  Navigation only allocates and registers wrappers: \<open>extends s s'\<close> says that every
  object and every cache entry of \<open>s\<close> is unchanged in \<open>s'\<close>.
\<close>

definition extends :: "world \<Rightarrow> world \<Rightarrow> bool" where
  "extends s s' \<longleftrightarrow>
     nextRef s \<le> nextRef s'
     \<and> (\<forall>w<nextRef s. heap s' w = heap s w)
     \<and> (\<forall>i w. nodeCache s i = Some w \<longrightarrow> nodeCache s' i = Some w)
     \<and> disposeLog s' = disposeLog s \<and> parentOf s' = parentOf s \<and> containerId s' = containerId s"

text \<open>
  \<open>disposal s po L s'\<close>: from \<open>s\<close> to \<open>s'\<close> the wrappers \<open>map fst L\<close> were handed to
  \<^verbatim>\<open>disposeOnlyThis\<close> in this order, bound to the nodes \<open>po\<close> in this order; they are
  unbound in \<open>s'\<close>, among them every wrapper \<open>s\<close> had registered for a node of \<open>po\<close>; the
  cache lost the entries of these nodes and no other; and a wrapper of \<open>s\<close> that was not
  bound to a node of \<open>po\<close> is untouched.
\<close>

definition disposal :: "world \<Rightarrow> ts_Node list \<Rightarrow> (ref \<times> ts_Node option) list \<Rightarrow> world \<Rightarrow> bool" where
  "disposal s po L s' \<longleftrightarrow>
     disposeLog s' = disposeLog s @ L
     \<and> map snd L = map Some po
     \<and> (\<forall>w\<in>fst ` set L. private_compilerNode (heap s' w) = None \<and> w < nextRef s')
     \<and> (\<forall>n\<in>set po. \<forall>w. nodeCache s (ts_id n) = Some w \<longrightarrow> w \<in> fst ` set L)
     \<and> nodeCache s' = (\<lambda>i. if i \<in> ts_id ` set po then None else nodeCache s i)
     \<and> (\<forall>w<nextRef s. (\<forall>n. private_compilerNode (heap s w) = Some n \<longrightarrow> n \<notin> set po)
           \<longrightarrow> heap s' w = heap s w)
     \<and> nextRef s \<le> nextRef s'
     \<and> parentOf s' = parentOf s \<and> containerId s' = containerId s"

text \<open>The error of the getter \<^verbatim>\<open>compilerNode\<close> on a disposed wrapper.\<close>

abbreviation removedFromAst :: error where
  "removedFromAst \<equiv> InvalidOperationError
     ''Attempted to get information from a node that was removed from the AST.''"

text \<open>
  Example states.  \<open>exampleTree\<close> is the tree of the file \<^verbatim>\<open>a;\<close>: the source file, its
  syntax list with the one statement, and the end-of-file token, which has no width.
  The parent of all three is the source file (a syntax list is not a parent for the
  compiler).  In \<open>exampleWorld\<close> the source file alone is wrapped, by the object \<open>0\<close>.
  In \<open>leafWorld\<close> the object \<open>0\<close> wraps an end-of-file token; \<open>disposedWorld\<close> is
  \<open>leafWorld\<close> after that wrapper was disposed.
\<close>

definition exampleTree :: ts_Node where
  "exampleTree =
     TsNode 0 SourceFile 0 2
       [TsNode 1 SyntaxList 0 2 [TsNode 2 ExpressionStatement 0 2 []],
        TsNode 3 EndOfFileToken 2 2 []]"

definition exampleWorld :: world where
  "exampleWorld =
     \<lparr>containerId = 0,
      nodeCache = [0 \<mapsto> 0],
      heap = (\<lambda>r. \<lparr>global = 0, private_compilerNode = Some exampleTree, sourceFile = 0\<rparr>),
      nextRef = 1,
      parentOf = (\<lambda>i. if i = 1 \<or> i = 2 \<or> i = 3 then Some exampleTree else None),
      disposeLog = []\<rparr>"

definition leafWorld :: world where
  "leafWorld =
     \<lparr>containerId = 0,
      nodeCache = [3 \<mapsto> 0],
      heap = (\<lambda>r. \<lparr>global = 0, private_compilerNode = Some (TsNode 3 EndOfFileToken 2 2 []), sourceFile = 0\<rparr>),
      nextRef = 1,
      parentOf = (\<lambda>i. None),
      disposeLog = []\<rparr>"

definition disposedWorld :: world where
  "disposedWorld =
     leafWorld\<lparr>disposeLog := [(0, Some (TsNode 3 EndOfFileToken 2 2 []))],
               nodeCache := (nodeCache leafWorld)(3 := None),
               heap := (heap leafWorld)(0 := (heap leafWorld 0)\<lparr>private_compilerNode := None\<rparr>)\<rparr>"


text \<open>
  What the navigation is compared with, on compiler trees alone.  A node \<open>spans\<close> a
  position that lies in its range \<open>[pos, end)\<close>; \<open>ts_getChildAtPos\<close> is the first child
  that spans it, \<open>ts_deepestAtPos\<close> follows such children down as long as there is one,
  and \<open>ts_getDescendantAtPos\<close> is the deepest node found below the start.
\<close>

definition spans :: "int \<Rightarrow> ts_Node \<Rightarrow> bool" where
  "spans p c \<longleftrightarrow> ts_pos c \<le> p \<and> p < ts_end c"

text \<open>
  The text of a source file is the concatenation of the trivia and token text of its
  tree (section 3 of the specification): every position of the file lies in one of the
  children of the source file.  \<open>childrenCover t\<close> says so of the node \<open>t\<close>.
\<close>

definition childrenCover :: "ts_Node \<Rightarrow> bool" where
  "childrenCover t \<longleftrightarrow>
     (\<forall>q\<in>{ts_pos t..<ts_end t}. \<exists>c\<in>set (ts_getChildren t). spans q c)"

definition ts_getChildAtPos :: "int \<Rightarrow> ts_Node \<Rightarrow> ts_Node option" where
  "ts_getChildAtPos p t =
     (if p < ts_pos t \<or> p \<ge> ts_end t then None else find (spans p) (ts_getChildren t))"

lemma find_size:
  "find P cs = Some c \<Longrightarrow> size c < Suc (size_list size cs)"
  by (induction cs) (auto split: if_splits)

function ts_deepestAtPos :: "int \<Rightarrow> ts_Node \<Rightarrow> ts_Node" where
  "ts_deepestAtPos p t =
     (case ts_getChildAtPos p t of None \<Rightarrow> t | Some c \<Rightarrow> ts_deepestAtPos p c)"
  by pat_completeness auto
termination
proof (relation "measure (\<lambda>(p, t). size t)")
  show "wf (measure (\<lambda>(p, t). size t))" by simp
next
  fix p t c
  assume "ts_getChildAtPos p t = Some c"
  then have "find (spans p) (ts_getChildren t) = Some c"
    by (simp add: ts_getChildAtPos_def split: if_splits)
  then have "size c < Suc (size_list size (ts_getChildren t))" by (rule find_size)
  then show "((p, c), (p, t)) \<in> measure (\<lambda>(p, t). size t)"
    by (cases t) simp
qed

declare ts_deepestAtPos.simps [simp del]

definition ts_getDescendantAtPos :: "int \<Rightarrow> ts_Node \<Rightarrow> ts_Node option" where
  "ts_getDescendantAtPos p t = map_option (ts_deepestAtPos p) (ts_getChildAtPos p t)"

text \<open>
  \<open>navigable s N\<close>: the cache agrees with \<open>N\<close> and the source file of every wrapper
  registered for a node of \<open>N\<close> is a live wrapper (the children iterator reads it).
\<close>

definition navigable :: "world \<Rightarrow> ts_Node set \<Rightarrow> bool" where
  "navigable s N \<longleftrightarrow>
     (\<forall>n\<in>N. \<forall>w. nodeCache s (ts_id n) = Some w \<longrightarrow>
        w < nextRef s \<and> private_compilerNode (heap s w) = Some n
        \<and> sourceFile (heap s w) < nextRef s
        \<and> private_compilerNode (heap s (sourceFile (heap s w))) \<noteq> None)"

text \<open>
  The parent that the sibling queries select, on compiler nodes:
  \<open>ts_getParentSyntaxList_loop\<close> reads the children of the parent as
  \<^verbatim>\<open>getParentSyntaxList\<close> does, and \<open>ts_siblingsParent\<close> is
  \<^verbatim>\<open>getParentSyntaxList() || getParentOrThrow()\<close>, undefined for a node without a parent.
  \<open>wrapperOf s n\<close> is the wrapper under which the cache of \<open>s\<close> holds \<open>n\<close>.
\<close>

fun ts_getParentSyntaxList_loop :: "ts_Node \<Rightarrow> ts_Node list \<Rightarrow> ts_Node option" where
  "ts_getParentSyntaxList_loop c0 [] = None"
| "ts_getParentSyntaxList_loop c0 (c # rest) =
     (if ts_pos c > ts_pos c0 \<or> c = c0 then None
      else if ts_kind c = SyntaxList \<and> ts_pos c \<le> ts_pos c0 \<and> ts_end c \<ge> ts_end c0 then Some c
      else ts_getParentSyntaxList_loop c0 rest)"

definition ts_siblingsParent :: "(nat \<Rightarrow> ts_Node option) \<Rightarrow> ts_Node \<Rightarrow> ts_Node option" where
  "ts_siblingsParent par c0 =
     (case par (ts_id c0) of
        None \<Rightarrow> None
      | Some tp \<Rightarrow>
          Some (case ts_getParentSyntaxList_loop c0 (ts_getChildren tp) of
                  Some l \<Rightarrow> l
                | None \<Rightarrow> tp))"

definition wrapperOf :: "world \<Rightarrow> ts_Node \<Rightarrow> ref" where
  "wrapperOf s n = the (nodeCache s (ts_id n))"

text \<open>
  More example states.  \<open>eofWorld\<close> is \<open>exampleWorld\<close> after the children of the source file
  were wrapped (object \<open>1\<close> the syntax list, \<open>2\<close> the end-of-file token), \<open>eofWorld'\<close> the
  same after the statement was wrapped too (object \<open>3\<close>).
\<close>

definition eofWorld :: world where
  "eofWorld =
     \<lparr>containerId = 0,
      nodeCache = [0 \<mapsto> 0, 1 \<mapsto> 1, 3 \<mapsto> 2],
      heap = (\<lambda>r. \<lparr>global = 0, private_compilerNode = Some exampleTree, sourceFile = 0\<rparr>)
               (1 := \<lparr>global = 0,
                      private_compilerNode = Some (TsNode 1 SyntaxList 0 2 [TsNode 2 ExpressionStatement 0 2 []]),
                      sourceFile = 0\<rparr>,
                2 := \<lparr>global = 0,
                      private_compilerNode = Some (TsNode 3 EndOfFileToken 2 2 []),
                      sourceFile = 0\<rparr>),
      nextRef = 3,
      parentOf = (\<lambda>i. if i = 1 \<or> i = 2 \<or> i = 3 then Some exampleTree else None),
      disposeLog = []\<rparr>"

definition eofWorld' :: world where
  "eofWorld' =
     eofWorld\<lparr>nodeCache := (nodeCache eofWorld)(2 \<mapsto> 3),
              heap := (heap eofWorld)(3 := \<lparr>global = 0,
                                             private_compilerNode = Some (TsNode 2 ExpressionStatement 0 2 []),
                                             sourceFile = 0\<rparr>),
              nextRef := 4\<rparr>"



text \<open>
  \<open>frame s s' M\<close>: from \<open>s\<close> to \<open>s'\<close> no wrapper was lost, a wrapper of \<open>s\<close> not bound to a
  node of \<open>M\<close> is untouched, and so is the cache entry of every node outside \<open>M\<close>.
\<close>

definition frame :: "world \<Rightarrow> world \<Rightarrow> ts_Node set \<Rightarrow> bool" where
  "frame s s' M \<longleftrightarrow>
     nextRef s \<le> nextRef s'
     \<and> (\<forall>w<nextRef s. (\<forall>n\<in>M. private_compilerNode (heap s w) \<noteq> Some n) \<longrightarrow> heap s' w = heap s w)
     \<and> (\<forall>i. i \<notin> ts_id ` M \<longrightarrow> nodeCache s' i = nodeCache s i)"












section \<open>Properties of KeyValueCache\<close>

lemma falsy_values:
  "\<not> truthy (Number 0) \<and> \<not> truthy (String []) \<and> \<not> truthy (Boolean False) \<and> \<not> truthy Null"
  by simp

text \<open>
  C9.  A key whose stored value is falsy (\<open>0\<close>, the empty string, \<open>false\<close>, \<open>null\<close>; also
  \<open>NaN\<close> and \<open>undefined\<close>) is in the cache, yet \<open>get\<close> returns \<open>Undefined\<close> for it, and
  \<open>getOrCreate\<close> calls \<open>createFunc\<close> (the world moves to \<open>snd (createFunc w)\<close>), returns
  what it created and overwrites the entry with it.
\<close>

theorem get_falsy_is_undefined_and_getOrCreate_overwrites:
  assumes "cacheItems c key = Some v"
    and "\<not> truthy v"
  shows "Map_has (cacheItems c) key
       \<and> get c key = Undefined
       \<and> getOrCreate c key createFunc w =
           (fst (createFunc w), set_item c key (fst (createFunc w)), snd (createFunc w))
       \<and> cacheItems (fst (snd (getOrCreate c key createFunc w))) key = Some (fst (createFunc w))"
proof -
  from assms have g: "get c key = Undefined"
    by (simp add: get_def Map_get_def)
  show ?thesis
    using assms(1) g
    by (simp add: Map_has_def getOrCreate_def set_item_def Map_set_def split: prod.splits)
qed

theorem get_falsy_is_undefined_and_getOrCreate_overwrites_witness:
  "get \<lparr>cacheItems = [(1::nat) \<mapsto> Number 0]\<rparr> 1 = Undefined
   \<and> getOrCreate \<lparr>cacheItems = [(1::nat) \<mapsto> Number 0]\<rparr> 1 (\<lambda>n::nat. (Object 7, Suc n)) 0 =
       (Object 7, \<lparr>cacheItems = [1 \<mapsto> Object 7]\<rparr>, Suc 0)"
  using get_falsy_is_undefined_and_getOrCreate_overwrites
          [of "\<lparr>cacheItems = [(1::nat) \<mapsto> Number 0]\<rparr>" 1 "Number 0" "\<lambda>n::nat. (Object 7, Suc n)" 0]
  by (simp add: set_item_def Map_set_def)

text \<open>
  C5, as the code has it.  With \<open>k1\<close> in the cache, \<open>replaceKey c k1 k2\<close> moves its value
  to \<open>k2\<close> and leaves every other key alone; the cache \<open>{k1: v}\<close> becomes \<open>{k2: v}\<close>; and
  when \<open>k2\<close> is another key than \<open>k1\<close>, \<open>k1\<close> is gone and \<open>get\<close> returns \<open>Undefined\<close> for
  it.  On a key that is not in the cache \<open>replaceKey\<close> throws the plain
  \<^verbatim>\<open>Error("Key not found.")\<close> and changes nothing.
\<close>

theorem replaceKey_moves_the_entry:
  "(cacheItems c k1 = Some v \<longrightarrow>
      (\<exists>c'. replaceKey c k1 k2 = Inr c'
          \<and> cacheItems c' k2 = Some v
          \<and> (\<forall>k. k \<noteq> k1 \<and> k \<noteq> k2 \<longrightarrow> cacheItems c' k = cacheItems c k)
          \<and> (k2 \<noteq> k1 \<longrightarrow> cacheItems c' k1 = None \<and> get c' k1 = Undefined)))
   \<and> replaceKey \<lparr>cacheItems = [k1 \<mapsto> v]\<rparr> k1 k2 = Inr \<lparr>cacheItems = [k2 \<mapsto> v]\<rparr>
   \<and> (cacheItems c kMissing = None \<longrightarrow> replaceKey c kMissing k2 = Inl (Error ''Key not found.''))"
  by (auto simp: replaceKey_def Map_has_def Map_get_def Map_set_def Map_delete_def get_def Let_def)

theorem replaceKey_moves_the_entry_witness:
  "replaceKey \<lparr>cacheItems = [(1::nat) \<mapsto> String ''v'']\<rparr> 1 2 = Inr \<lparr>cacheItems = [2 \<mapsto> String ''v'']\<rparr>
   \<and> get \<lparr>cacheItems = [(2::nat) \<mapsto> String ''v'']\<rparr> 1 = Undefined
   \<and> replaceKey \<lparr>cacheItems = [(1::nat) \<mapsto> String ''v'']\<rparr> 3 2 = Inl (Error ''Key not found.'')"
  using replaceKey_moves_the_entry
          [of "\<lparr>cacheItems = [(1::nat) \<mapsto> String ''v'']\<rparr>" 1 "String ''v''" 2 3]
  by (simp add: get_def Map_get_def)

text \<open>
  C5 as stated fails twice: replacing a key by itself keeps the entry, so \<open>get\<close> still
  returns its value; and the error for a missing key is not an InvalidOperationError.
\<close>

theorem replaceKey_claim_counterexample:
  "replaceKey \<lparr>cacheItems = [(1::nat) \<mapsto> String ''v'']\<rparr> 1 1 = Inr \<lparr>cacheItems = [1 \<mapsto> String ''v'']\<rparr>
   \<and> get \<lparr>cacheItems = [(1::nat) \<mapsto> String ''v'']\<rparr> 1 = String ''v''
   \<and> get \<lparr>cacheItems = [(1::nat) \<mapsto> String ''v'']\<rparr> 1 \<noteq> Undefined
   \<and> replaceKey \<lparr>cacheItems = Map.empty\<rparr> (1::nat) 2 = Inl (Error ''Key not found.'')
   \<and> \<not> isInvalidOperationError (Error ''Key not found.'')"
  by (simp add: replaceKey_def Map_has_def Map_get_def Map_set_def Map_delete_def get_def)

section \<open>Properties of isFirstNodeOnLine\<close>

lemma isFirstNodeOnLine_loop_iff:
  "isFirstNodeOnLine_loop t n \<longleftrightarrow>
     (\<exists>j<n. charAt t j = Some (CHR 0x0A)
        \<and> (\<forall>k. j < k \<and> k < n \<longrightarrow> charAt t k = Some CHR '' '' \<or> charAt t k = Some (CHR 0x09)))"
proof (induction n)
  case 0
  show ?case by simp
next
  case (Suc n)
  let ?ws = "\<lambda>k. charAt t k = Some CHR '' '' \<or> charAt t k = Some (CHR 0x09)"
  show ?case
  proof (cases "?ws n")
    case True
    then have nl: "charAt t n \<noteq> Some (CHR 0x0A)" by auto
    have "isFirstNodeOnLine_loop t (Suc n) = isFirstNodeOnLine_loop t n"
      using True by (auto simp: Let_def)
    also have "\<dots> = (\<exists>j<n. charAt t j = Some (CHR 0x0A) \<and> (\<forall>k. j < k \<and> k < n \<longrightarrow> ?ws k))"
      by (rule Suc.IH)
    also have "\<dots> = (\<exists>j<Suc n. charAt t j = Some (CHR 0x0A) \<and> (\<forall>k. j < k \<and> k < Suc n \<longrightarrow> ?ws k))"
      using True nl by (metis less_Suc_eq)
    finally show ?thesis .
  next
    case False
    show ?thesis
    proof (cases "charAt t n = Some (CHR 0x0A)")
      case True
      then have "isFirstNodeOnLine_loop t (Suc n)" by (simp add: Let_def)
      moreover have "\<exists>j<Suc n. charAt t j = Some (CHR 0x0A) \<and> (\<forall>k. j < k \<and> k < Suc n \<longrightarrow> ?ws k)"
        using True by (intro exI[of _ n]) auto
      ultimately show ?thesis by blast
    next
      case nonl: False
      have "\<not> isFirstNodeOnLine_loop t (Suc n)"
        using False nonl by (simp add: Let_def)
      moreover have "\<not> (\<exists>j<Suc n. charAt t j = Some (CHR 0x0A) \<and> (\<forall>k. j < k \<and> k < Suc n \<longrightarrow> ?ws k))"
        using False nonl by (metis less_Suc_eq)
      ultimately show ?thesis by blast
    qed
  qed
qed

text \<open>
  C10.  \<open>isFirstNodeOnLine\<close> is true exactly when, going back from the start of the node,
  a newline is reached over spaces and tabs only.  So a node that has only spaces and
  tabs between the beginning of the file and its start is not first on its line for the
  code, and neither is a node that starts at position 0.
\<close>

theorem isFirstNodeOnLine_needs_a_newline:
  "(isFirstNodeOnLine t startPos \<longleftrightarrow>
      (\<exists>j. int j < startPos \<and> charAt t j = Some (CHR 0x0A)
         \<and> (\<forall>k. j < k \<and> int k < startPos \<longrightarrow>
               charAt t k = Some CHR '' '' \<or> charAt t k = Some (CHR 0x09))))
   \<and> ((\<forall>k. int k < startPos \<longrightarrow> charAt t k = Some CHR '' '' \<or> charAt t k = Some (CHR 0x09))
        \<longrightarrow> \<not> isFirstNodeOnLine t startPos)
   \<and> \<not> isFirstNodeOnLine t 0"
proof -
  have a: "isFirstNodeOnLine t startPos \<longleftrightarrow>
      (\<exists>j. int j < startPos \<and> charAt t j = Some (CHR 0x0A)
         \<and> (\<forall>k. j < k \<and> int k < startPos \<longrightarrow>
               charAt t k = Some CHR '' '' \<or> charAt t k = Some (CHR 0x09)))"
  proof (cases "startPos \<le> 0")
    case True
    then show ?thesis by (auto simp: isFirstNodeOnLine_def)
  next
    case False
    then have eq: "\<And>k. (k < nat startPos) = (int k < startPos)" by auto
    show ?thesis
      using False by (simp add: isFirstNodeOnLine_def isFirstNodeOnLine_loop_iff eq)
  qed
  have b: "(\<forall>k. int k < startPos \<longrightarrow> charAt t k = Some CHR '' '' \<or> charAt t k = Some (CHR 0x09))
        \<longrightarrow> \<not> isFirstNodeOnLine t startPos"
    unfolding a by auto
  have c: "\<not> isFirstNodeOnLine t 0" by (simp add: isFirstNodeOnLine_def)
  from a b c show ?thesis by blast
qed

theorem isFirstNodeOnLine_needs_a_newline_witness:
  "\<not> isFirstNodeOnLine ''  x'' 2
   \<and> isFirstNodeOnLine [CHR ''a'', CHR 0x0A, CHR '' '', CHR ''b''] 3"
proof -
  have ws: "\<forall>k. int k < 2 \<longrightarrow> charAt ''  x'' k = Some CHR '' '' \<or> charAt ''  x'' k = Some (CHR 0x09)"
    by (auto simp: charAt_def nth_Cons split: nat.splits)
  have nl: "\<exists>j. int j < 3 \<and> charAt [CHR ''a'', CHR 0x0A, CHR '' '', CHR ''b''] j = Some (CHR 0x0A)
         \<and> (\<forall>k. j < k \<and> int k < 3 \<longrightarrow>
               charAt [CHR ''a'', CHR 0x0A, CHR '' '', CHR ''b''] k = Some CHR '' ''
             \<or> charAt [CHR ''a'', CHR 0x0A, CHR '' '', CHR ''b''] k = Some (CHR 0x09))"
    by (rule exI[of _ 1]) (auto simp: charAt_def nth_Cons split: nat.splits)
  from ws nl
    isFirstNodeOnLine_needs_a_newline [of "''  x''" 2]
    isFirstNodeOnLine_needs_a_newline [of "[CHR ''a'', CHR 0x0A, CHR '' '', CHR ''b'']" 3]
  show ?thesis by blast
qed

section \<open>Rebinding a wrapper\<close>

text \<open>
  C8.  \<open>replaceCompilerNode this cn\<close> returns normally and writes one field of one
  object: in the new heap the wrapper \<open>this\<close> is what it was but for its compiler node,
  now \<open>cn\<close>; its source file and its container are the same, every other wrapper is the
  same, and so is the rest of the state (the cache included).  The reference \<open>this\<close>
  names the same object before and after, and reads of it work.
\<close>

theorem replaceCompilerNode_changes_only_the_pointer:
  "fst (replaceCompilerNode this cn s) = Inr ()
   \<and> heap (snd (replaceCompilerNode this cn s)) =
        (heap s)(this := (heap s this)\<lparr>private_compilerNode := Some cn\<rparr>)
   \<and> sourceFile (heap (snd (replaceCompilerNode this cn s)) this) = sourceFile (heap s this)
   \<and> global (heap (snd (replaceCompilerNode this cn s)) this) = global (heap s this)
   \<and> private_compilerNode (heap (snd (replaceCompilerNode this cn s)) this) = Some cn
   \<and> (snd (replaceCompilerNode this cn s))\<lparr>heap := heap s\<rparr> = s
   \<and> fst (compilerNode this (snd (replaceCompilerNode this cn s))) = Inr cn
   \<and> fst (getSourceFile this (snd (replaceCompilerNode this cn s))) = fst (getSourceFile this s)"
  by (simp add: replaceCompilerNode_def compilerNode_def getSourceFile_def)

section \<open>Lemmas on the state\<close>

lemma extends_refl: "extends s s"
  by (simp add: extends_def)

lemma extends_trans: "extends s s1 \<Longrightarrow> extends s1 s2 \<Longrightarrow> extends s s2"
  unfolding extends_def by (metis (no_types, lifting) le_trans less_le_trans)

lemma bindM_Inr: "m s = (Inr x, s1) \<Longrightarrow> bindM m f s = f x s1"
  by (simp add: bindM_def)

lemma bindM_Inl: "m s = (Inl e, s1) \<Longrightarrow> bindM m f s = (Inl e, s1)"
  by (simp add: bindM_def)

lemma bindP_Inr: "m s = Some (Inr x, s1) \<Longrightarrow> bindP m f s = f x s1"
  by (simp add: bindP_def)

lemma bindP_Inl: "m s = Some (Inl e, s1) \<Longrightarrow> bindP m f s = Some (Inl e, s1)"
  by (simp add: bindP_def)


lemma compilerNode_disposed:
  "private_compilerNode (heap s w) = None \<Longrightarrow>
   compilerNode w s = (Inl (InvalidOperationError
      ''Attempted to get information from a node that was removed from the AST.''), s)"
  by (simp add: compilerNode_def)

lemma yield_step:
  assumes ok: "cache_ok s N" and inj: "inj_on ts_id N" and c: "c \<in> N"
  shows "\<exists>w s1. getNodeFromCompilerNode c sf s = (Inr w, s1)
           \<and> nodeCache s1 (ts_id c) = Some w
           \<and> (nodeCache s (ts_id c) = None \<longrightarrow> sourceFile (heap s1 w) = sf)
           \<and> cache_ok s1 N \<and> extends s s1
           \<and> (\<forall>i. i \<noteq> ts_id c \<longrightarrow> nodeCache s1 i = nodeCache s i)"
proof (cases "nodeCache s (ts_id c)")
  case (Some w)
  then show ?thesis using ok by (simp add: getNodeFromCompilerNode_def extends_refl)
next
  case None
  let ?w = "nextRef s"
  let ?s1 = "s\<lparr>nodeCache := (nodeCache s)(ts_id c \<mapsto> ?w),
                heap := (heap s)(?w := \<lparr>global = containerId s, private_compilerNode = Some c, sourceFile = sf\<rparr>),
                nextRef := Suc ?w\<rparr>"
  have r: "getNodeFromCompilerNode c sf s = (Inr ?w, ?s1)"
    using None by (simp add: getNodeFromCompilerNode_def Let_def)
  have ok1: "cache_ok ?s1 N"
    unfolding cache_ok_def
  proof (intro ballI allI impI)
    fix n w assume n: "n \<in> N" and w: "nodeCache ?s1 (ts_id n) = Some w"
    show "w < nextRef ?s1 \<and> private_compilerNode (heap ?s1 w) = Some n"
    proof (cases "ts_id n = ts_id c")
      case True
      then have "n = c" using inj n c by (auto dest: inj_onD)
      with w show ?thesis by simp
    next
      case False
      with w have "nodeCache s (ts_id n) = Some w" by simp
      with ok n have "w < nextRef s \<and> private_compilerNode (heap s w) = Some n"
        by (auto simp: cache_ok_def)
      then show ?thesis by simp
    qed
  qed
  have ext: "extends s ?s1" using None by (auto simp: extends_def)
  show ?thesis using r ok1 ext by simp
qed

lemma wrap_children:
  assumes inj: "inj_on ts_id N"
  shows "cache_ok s N \<Longrightarrow> set cs \<subseteq> N \<Longrightarrow>
     \<exists>ws s1. mapM (\<lambda>n. bindM (getSourceFile this) (\<lambda>sf. getNodeFromCompilerNode n sf)) cs s = (Inr ws, s1)
        \<and> list_all2 (\<lambda>c w. nodeCache s1 (ts_id c) = Some w) cs ws
        \<and> cache_ok s1 N \<and> extends s s1
        \<and> (\<forall>i. i \<notin> ts_id ` set cs \<longrightarrow> nodeCache s1 i = nodeCache s i)"
proof (induction cs arbitrary: s)
  case Nil
  then show ?case by (simp add: returnM_def extends_refl)
next
  case (Cons c cs)
  let ?f = "\<lambda>n. bindM (getSourceFile this) (\<lambda>sf. getNodeFromCompilerNode n sf)"
  from Cons.prems have cN: "c \<in> N" and csN: "set cs \<subseteq> N" by auto
  from yield_step[OF Cons.prems(1) inj cN, of "sourceFile (heap s this)"]
  obtain w s1 where
    y: "getNodeFromCompilerNode c (sourceFile (heap s this)) s = (Inr w, s1)"
    and cw: "nodeCache s1 (ts_id c) = Some w"
    and ok1: "cache_ok s1 N" and e1: "extends s s1"
    and o1: "\<forall>i. i \<noteq> ts_id c \<longrightarrow> nodeCache s1 i = nodeCache s i"
    by blast
  have fy: "?f c s = (Inr w, s1)"
    using y by (simp add: bindM_def getSourceFile_def)
  from Cons.IH[OF ok1 csN]
  obtain ws s2 where
    m: "mapM ?f cs s1 = (Inr ws, s2)"
    and l2: "list_all2 (\<lambda>c w. nodeCache s2 (ts_id c) = Some w) cs ws"
    and ok2: "cache_ok s2 N" and e2: "extends s1 s2"
    and o2: "\<forall>i. i \<notin> ts_id ` set cs \<longrightarrow> nodeCache s2 i = nodeCache s1 i"
    by blast
  have r: "mapM ?f (c # cs) s = (Inr (w # ws), s2)"
    using fy m by (simp add: bindM_def returnM_def)
  have cw2: "nodeCache s2 (ts_id c) = Some w"
    using cw e2 by (auto simp: extends_def)
  have o: "\<forall>i. i \<notin> ts_id ` set (c # cs) \<longrightarrow> nodeCache s2 i = nodeCache s i"
    using o1 o2 by auto
  show ?case
    using r l2 cw2 ok2 extends_trans[OF e1 e2] o by auto
qed

lemma set_postorder: "set (postorder t) = set (subtrees t)"
  by (induction t rule: subtrees.induct) auto

lemma postorder_last: "postorder t = butlast (postorder t) @ [t]"
  by (cases t) simp

lemma self_in_subtrees: "t \<in> set (subtrees t)"
  by (cases t) simp

lemma child_subtrees:
  "c \<in> set (ts_getChildren t) \<Longrightarrow> set (subtrees c) \<subseteq> set (subtrees t)"
  by (cases t) auto

lemma disposal_Nil: "disposal s [] [] s"
  by (simp add: disposal_def)

lemma disposal_cachedD:
  "disposal s po L s' \<Longrightarrow> n \<in> set po \<Longrightarrow> nodeCache s (ts_id n) = Some w \<Longrightarrow> w \<in> fst ` set L"
  unfolding disposal_def by blast

lemma disposal_append:
  assumes d1: "disposal s po1 L1 s1" and d2: "disposal s1 po2 L2 s2"
    and dis: "ts_id ` set po1 \<inter> ts_id ` set po2 = {}"
  shows "disposal s (po1 @ po2) (L1 @ L2) s2"
proof -
  have log: "disposeLog s2 = disposeLog s @ (L1 @ L2)"
    using d1 d2 by (simp add: disposal_def)
  have sn: "map snd (L1 @ L2) = map Some (po1 @ po2)"
    using d1 d2 by (simp add: disposal_def)
  have frame2: "\<And>w. w < nextRef s1 \<Longrightarrow> private_compilerNode (heap s1 w) = None \<Longrightarrow> heap s2 w = heap s1 w"
    using d2 by (simp add: disposal_def)
  have le1: "nextRef s \<le> nextRef s1" and le2: "nextRef s1 \<le> nextRef s2"
    using d1 d2 by (simp_all add: disposal_def)
  have none: "\<forall>w\<in>fst ` set (L1 @ L2). private_compilerNode (heap s2 w) = None \<and> w < nextRef s2"
  proof
    fix w assume "w \<in> fst ` set (L1 @ L2)"
    then consider "w \<in> fst ` set L1" | "w \<in> fst ` set L2" by auto
    then show "private_compilerNode (heap s2 w) = None \<and> w < nextRef s2"
    proof cases
      case 1
      with d1 have a: "private_compilerNode (heap s1 w) = None" "w < nextRef s1"
        by (auto simp: disposal_def)
      with frame2 le2 show ?thesis by auto
    next
      case 2
      with d2 show ?thesis by (auto simp: disposal_def)
    qed
  qed
  have c1: "nodeCache s1 = (\<lambda>i. if i \<in> ts_id ` set po1 then None else nodeCache s i)"
    using d1 by (simp add: disposal_def)
  have c2: "nodeCache s2 = (\<lambda>i. if i \<in> ts_id ` set po2 then None else nodeCache s1 i)"
    using d2 by (simp add: disposal_def)
  have cached: "\<forall>n\<in>set (po1 @ po2). \<forall>w. nodeCache s (ts_id n) = Some w \<longrightarrow> w \<in> fst ` set (L1 @ L2)"
  proof (intro ballI allI impI)
    fix n w assume n: "n \<in> set (po1 @ po2)" and w: "nodeCache s (ts_id n) = Some w"
    show "w \<in> fst ` set (L1 @ L2)"
    proof (cases "n \<in> set po1")
      case True
      from disposal_cachedD[OF d1 True w] show ?thesis by auto
    next
      case False
      with n have n2: "n \<in> set po2" by auto
      then have "ts_id n \<notin> ts_id ` set po1" using dis by auto
      with c1 w have "nodeCache s1 (ts_id n) = Some w" by simp
      from disposal_cachedD[OF d2 n2 this] show ?thesis by auto
    qed
  qed
  have cache: "nodeCache s2 = (\<lambda>i. if i \<in> ts_id ` set (po1 @ po2) then None else nodeCache s i)"
    unfolding c2 c1 by (rule ext) (auto simp: image_Un)
  have frame: "\<forall>w<nextRef s. (\<forall>n. private_compilerNode (heap s w) = Some n \<longrightarrow> n \<notin> set (po1 @ po2))
           \<longrightarrow> heap s2 w = heap s w"
  proof (intro allI impI)
    fix w assume w: "w < nextRef s"
      and b: "\<forall>n. private_compilerNode (heap s w) = Some n \<longrightarrow> n \<notin> set (po1 @ po2)"
    from d1 w b have h1: "heap s1 w = heap s w" by (auto simp: disposal_def)
    from w le1 have "w < nextRef s1" by simp
    moreover from b h1 have "\<forall>n. private_compilerNode (heap s1 w) = Some n \<longrightarrow> n \<notin> set po2" by auto
    ultimately have "heap s2 w = heap s1 w" using d2 by (auto simp: disposal_def)
    with h1 show "heap s2 w = heap s w" by simp
  qed
  have rest: "nextRef s \<le> nextRef s2 \<and> parentOf s2 = parentOf s \<and> containerId s2 = containerId s"
    using d1 d2 by (simp add: disposal_def)
  show ?thesis
    unfolding disposal_def using log sn none cached cache frame rest by blast
qed

lemma disposal_extends:
  assumes e: "extends s s1" and d: "disposal s1 po L s2"
    and o: "\<forall>i. i \<notin> ts_id ` set po \<longrightarrow> nodeCache s1 i = nodeCache s i"
  shows "disposal s po L s2"
proof -
  have "disposeLog s2 = disposeLog s @ L" using e d by (simp add: extends_def disposal_def)
  moreover have "map snd L = map Some po" using d by (simp add: disposal_def)
  moreover have "\<forall>w\<in>fst ` set L. private_compilerNode (heap s2 w) = None \<and> w < nextRef s2"
    using d by (simp add: disposal_def)
  moreover have "\<forall>n\<in>set po. \<forall>w. nodeCache s (ts_id n) = Some w \<longrightarrow> w \<in> fst ` set L"
    using e d by (auto simp: extends_def disposal_def)
  moreover have "nodeCache s2 = (\<lambda>i. if i \<in> ts_id ` set po then None else nodeCache s i)"
  proof -
    have "nodeCache s2 = (\<lambda>i. if i \<in> ts_id ` set po then None else nodeCache s1 i)"
      using d by (simp add: disposal_def)
    with o show ?thesis by auto
  qed
  moreover have "\<forall>w<nextRef s. (\<forall>n. private_compilerNode (heap s w) = Some n \<longrightarrow> n \<notin> set po)
           \<longrightarrow> heap s2 w = heap s w"
  proof (intro allI impI)
    fix w assume w: "w < nextRef s"
      and b: "\<forall>n. private_compilerNode (heap s w) = Some n \<longrightarrow> n \<notin> set po"
    from e w have h1: "heap s1 w = heap s w" and w1: "w < nextRef s1" by (auto simp: extends_def)
    with b d have "heap s2 w = heap s1 w" by (auto simp: disposal_def)
    with h1 show "heap s2 w = heap s w" by simp
  qed
  moreover have "nextRef s \<le> nextRef s2 \<and> parentOf s2 = parentOf s \<and> containerId s2 = containerId s"
    using e d by (auto simp: extends_def disposal_def)
  ultimately show ?thesis unfolding disposal_def by blast
qed

lemma disposal_cache_ok:
  assumes d: "disposal s po L s'" and ok: "cache_ok s N"
  shows "cache_ok s' N"
  unfolding cache_ok_def
proof (intro ballI allI impI)
  fix n w assume n: "n \<in> N" and w: "nodeCache s' (ts_id n) = Some w"
  have c: "nodeCache s' = (\<lambda>i. if i \<in> ts_id ` set po then None else nodeCache s i)"
    using d by (simp add: disposal_def)
  from w c have notin: "ts_id n \<notin> ts_id ` set po" and ws: "nodeCache s (ts_id n) = Some w"
    by (auto split: if_splits)
  from ok n ws have a: "w < nextRef s" "private_compilerNode (heap s w) = Some n"
    by (auto simp: cache_ok_def)
  from notin have "n \<notin> set po" by auto
  with a d have "heap s' w = heap s w" by (auto simp: disposal_def)
  moreover from d a have "w < nextRef s'" by (auto simp: disposal_def)
  ultimately show "w < nextRef s' \<and> private_compilerNode (heap s' w) = Some n"
    using a by simp
qed

lemma disposeOnlyThis_result:
  "disposeOnlyThis this s =
     (Inr (), s\<lparr>disposeLog := disposeLog s @ [(this, private_compilerNode (heap s this))],
               nodeCache := (case private_compilerNode (heap s this) of
                               None \<Rightarrow> nodeCache s
                             | Some cn \<Rightarrow> (nodeCache s)(ts_id cn := None)),
               heap := (heap s)(this := (heap s this)\<lparr>private_compilerNode := None\<rparr>)\<rparr>)"
  by (cases "private_compilerNode (heap s this)")
     (simp_all add: disposeOnlyThis_def bindM_def removeNodeFromCache_def)

lemma disposal_self:
  assumes b: "private_compilerNode (heap s this) = Some t" and lt: "this < nextRef s"
    and c: "nodeCache s (ts_id t) = Some this"
  shows "disposal s [t] [(this, Some t)] (snd (disposeOnlyThis this s))"
  using b lt c by (auto simp: disposal_def disposeOnlyThis_result)

lemma getChildren_live:
  "private_compilerNode (heap s this) = Some t \<Longrightarrow>
   getChildren this s =
     mapM (\<lambda>n. bindM (getSourceFile this) (\<lambda>sf. getNodeFromCompilerNode n sf)) (ts_getChildren t) s"
  by (simp add: getChildren_def bindM_def compilerNode_def)

lemma dispose_forest:
  assumes IH: "\<And>c s this. c \<in> set cs0 \<Longrightarrow> cache_ok s N \<Longrightarrow> set (subtrees c) \<subseteq> N \<Longrightarrow>
                 distinct (subtrees c) \<Longrightarrow> nodeCache s (ts_id c) = Some this \<Longrightarrow>
                 \<exists>L s'. dispose this s = Some (Inr (), s') \<and> disposal s (postorder c) L s'"
    and inj: "inj_on ts_id N"
  shows "set cs \<subseteq> set cs0 \<Longrightarrow> cache_ok s N \<Longrightarrow> set (concat (map subtrees cs)) \<subseteq> N \<Longrightarrow>
         distinct (concat (map subtrees cs)) \<Longrightarrow>
         list_all2 (\<lambda>c w. nodeCache s (ts_id c) = Some w) cs ws \<Longrightarrow>
         \<exists>L s'. forEachP dispose ws s = Some (Inr (), s')
               \<and> disposal s (concat (map postorder cs)) L s'"
proof (induction cs arbitrary: s ws)
  case Nil
  then show ?case by (auto intro: disposal_Nil)
next
  case (Cons c cs)
  from Cons.prems(5) obtain w ws' where ws: "ws = w # ws'"
    and cw: "nodeCache s (ts_id c) = Some w"
    and rest: "list_all2 (\<lambda>c w. nodeCache s (ts_id c) = Some w) cs ws'"
    by (auto simp: list_all2_Cons1)
  from Cons.prems have c0: "c \<in> set cs0" and cs0: "set cs \<subseteq> set cs0" by auto
  from Cons.prems(3) have cN: "set (subtrees c) \<subseteq> N" and csN: "set (concat (map subtrees cs)) \<subseteq> N"
    by auto
  from Cons.prems(4) have dc: "distinct (subtrees c)" and dcs: "distinct (concat (map subtrees cs))"
    and disj: "set (subtrees c) \<inter> set (concat (map subtrees cs)) = {}"
    by auto
  from IH[OF c0 Cons.prems(2) cN dc cw]
  obtain L1 s1 where d: "dispose w s = Some (Inr (), s1)" and p1: "disposal s (postorder c) L1 s1"
    by blast
  have ok1: "cache_ok s1 N" by (rule disposal_cache_ok[OF p1 Cons.prems(2)])
  have iddisj: "ts_id ` set (postorder c) \<inter> ts_id ` set (concat (map postorder cs)) = {}"
  proof -
    have "set (concat (map postorder cs)) = set (concat (map subtrees cs))"
      by (auto simp: set_postorder)
    with disj cN csN inj show ?thesis
      unfolding set_postorder by (auto dest: inj_onD)
  qed
  have c1: "nodeCache s1 = (\<lambda>i. if i \<in> ts_id ` set (postorder c) then None else nodeCache s i)"
    using p1 by (simp add: disposal_def)
  have rest1: "list_all2 (\<lambda>c w. nodeCache s1 (ts_id c) = Some w) cs ws'"
  proof (rule list.rel_mono_strong[OF rest])
    fix c' w' assume c': "c' \<in> set cs" and "w' \<in> set ws'" and h: "nodeCache s (ts_id c') = Some w'"
    have "c' \<in> set (concat (map postorder cs))"
      using c' self_in_subtrees[of c'] by (auto simp: set_postorder)
    with iddisj have "ts_id c' \<notin> ts_id ` set (postorder c)" by auto
    with c1 h show "nodeCache s1 (ts_id c') = Some w'" by simp
  qed
  from Cons.IH[OF cs0 ok1 csN dcs rest1]
  obtain L2 s2 where f: "forEachP dispose ws' s1 = Some (Inr (), s2)"
    and p2: "disposal s1 (concat (map postorder cs)) L2 s2"
    by blast
  have "forEachP dispose ws s = Some (Inr (), s2)"
    using ws d f by (simp add: bindP_def)
  moreover have "disposal s (concat (map postorder (c # cs))) (L1 @ L2) s2"
    using disposal_append[OF p1 p2 iddisj] by simp
  ultimately show ?case by blast
qed

lemma dispose_tree:
  assumes inj: "inj_on ts_id N"
  shows "cache_ok s N \<Longrightarrow> set (subtrees t) \<subseteq> N \<Longrightarrow> distinct (subtrees t) \<Longrightarrow>
         nodeCache s (ts_id t) = Some this \<Longrightarrow>
         \<exists>L s'. dispose this s = Some (Inr (), s') \<and> disposal s (postorder t) (L @ [(this, Some t)]) s'"
proof (induction t arbitrary: s this)
  case (TsNode i k p e cs)
  let ?t = "TsNode i k p e cs"
  have tN: "?t \<in> N" using TsNode.prems(2) by simp
  from TsNode.prems(1,4) tN have lt: "this < nextRef s"
    and b: "private_compilerNode (heap s this) = Some ?t"
    by (auto simp: cache_ok_def)
  have csN: "set cs \<subseteq> N"
  proof
    fix c assume "c \<in> set cs"
    then have "c \<in> set (subtrees ?t)" using self_in_subtrees[of c] by auto
    with TsNode.prems(2) show "c \<in> N" by auto
  qed
  from wrap_children[OF inj TsNode.prems(1) csN, of this]
  obtain ws s1 where
    m: "mapM (\<lambda>n. bindM (getSourceFile this) (\<lambda>sf. getNodeFromCompilerNode n sf)) cs s = (Inr ws, s1)"
    and l2: "list_all2 (\<lambda>c w. nodeCache s1 (ts_id c) = Some w) cs ws"
    and ok1: "cache_ok s1 N" and e1: "extends s s1"
    and o1: "\<forall>i. i \<notin> ts_id ` set cs \<longrightarrow> nodeCache s1 i = nodeCache s i"
    by blast
  have g: "getChildren this s = (Inr ws, s1)"
    using getChildren_live[OF b] m by simp
  have fN: "set (concat (map subtrees cs)) \<subseteq> N" using TsNode.prems(2) by auto
  have fd: "distinct (concat (map subtrees cs))" using TsNode.prems(3) by simp
  have tnot: "?t \<notin> set (concat (map subtrees cs))" using TsNode.prems(3) by simp
  have IH': "\<And>c s this. c \<in> set cs \<Longrightarrow> cache_ok s N \<Longrightarrow> set (subtrees c) \<subseteq> N \<Longrightarrow>
                 distinct (subtrees c) \<Longrightarrow> nodeCache s (ts_id c) = Some this \<Longrightarrow>
                 \<exists>L s'. dispose this s = Some (Inr (), s') \<and> disposal s (postorder c) L s'"
  proof -
    fix c s this
    assume "c \<in> set cs" "cache_ok s N" "set (subtrees c) \<subseteq> N"
      "distinct (subtrees c)" "nodeCache s (ts_id c) = Some this"
    from TsNode.IH[OF this]
    obtain L s' where "dispose this s = Some (Inr (), s')"
      and "disposal s (postorder c) (L @ [(this, Some c)]) s'"
      by blast
    then show "\<exists>L s'. dispose this s = Some (Inr (), s') \<and> disposal s (postorder c) L s'"
      by blast
  qed
  have "\<exists>L s'. forEachP dispose ws s1 = Some (Inr (), s') \<and> disposal s1 (concat (map postorder cs)) L s'"
    by (rule dispose_forest[where ?cs0.0 = cs and N = N, OF IH' inj subset_refl ok1 fN fd l2])
  then obtain L s2 where f: "forEachP dispose ws s1 = Some (Inr (), s2)"
    and p: "disposal s1 (concat (map postorder cs)) L s2"
    by blast
  have idt: "ts_id ?t \<notin> ts_id ` set (concat (map postorder cs))"
  proof
    assume "ts_id ?t \<in> ts_id ` set (concat (map postorder cs))"
    then obtain n where n: "n \<in> set (concat (map subtrees cs))" and eq: "ts_id n = ts_id ?t"
      by (auto simp: set_postorder)
    from n fN have nN: "n \<in> N" by blast
    have "n = ?t" by (rule inj_onD[OF inj eq nN tN])
    with n tnot show False by simp
  qed
  have lt1: "this < nextRef s1" and b1: "private_compilerNode (heap s1 this) = Some ?t"
    and c1: "nodeCache s1 (ts_id ?t) = Some this"
    using e1 lt b TsNode.prems(4) by (auto simp: extends_def)
  have tnot': "?t \<notin> set (concat (map postorder cs))"
    using tnot by (auto simp: set_postorder)
  have h2: "heap s2 this = heap s1 this"
    using p lt1 b1 tnot' unfolding disposal_def by auto
  have lt2: "this < nextRef s2" using p lt1 by (auto simp: disposal_def)
  have c2: "nodeCache s2 (ts_id ?t) = Some this"
    using p c1 idt by (simp add: disposal_def)
  have b2: "private_compilerNode (heap s2 this) = Some ?t" using h2 b1 by simp
  have p3: "disposal s2 [?t] [(this, Some ?t)] (snd (disposeOnlyThis this s2))"
    by (rule disposal_self[OF b2 lt2 c2])
  have dj: "ts_id ` set (concat (map postorder cs)) \<inter> ts_id ` set [?t] = {}"
    using idt by auto
  have p13: "disposal s1 (concat (map postorder cs) @ [?t]) (L @ [(this, Some ?t)]) (snd (disposeOnlyThis this s2))"
    by (rule disposal_append[OF p p3 dj])
  have o1': "\<forall>i. i \<notin> ts_id ` set (concat (map postorder cs) @ [?t]) \<longrightarrow> nodeCache s1 i = nodeCache s i"
  proof (intro allI impI)
    fix i assume i: "i \<notin> ts_id ` set (concat (map postorder cs) @ [?t])"
    have "i \<notin> ts_id ` set cs"
    proof
      assume "i \<in> ts_id ` set cs"
      then obtain c where c: "c \<in> set cs" and ic: "i = ts_id c" by auto
      have "c \<in> set (concat (map postorder cs))"
        using c self_in_subtrees[of c] by (auto simp: set_postorder)
      with i ic show False by auto
    qed
    with o1 show "nodeCache s1 i = nodeCache s i" by simp
  qed
  have p03: "disposal s (postorder ?t) (L @ [(this, Some ?t)]) (snd (disposeOnlyThis this s2))"
    using disposal_extends[OF e1 p13 o1'] by simp
  have g': "liftP (getChildren this) s = Some (Inr ws, s1)"
    using g by (simp add: liftP_def)
  have fs: "liftP (disposeOnlyThis this) s2 = Some (Inr (), snd (disposeOnlyThis this s2))"
    by (simp add: liftP_def disposeOnlyThis_result)
  have "dispose this s = Some (Inr (), snd (disposeOnlyThis this s2))"
    by (subst dispose.simps)
       (simp only: bindP_Inr[of "liftP (getChildren this)", OF g']
                   bindP_Inr[of "forEachP dispose ws", OF f] fs)
  with p03 show ?case by blast
qed

section \<open>Disposal\<close>

lemma disposalD:
  assumes "disposal s po L s'"
  shows "disposeLog s' = disposeLog s @ L"
    and "map snd L = map Some po"
    and "\<forall>w\<in>fst ` set L. private_compilerNode (heap s' w) = None"
    and "\<forall>n\<in>set po. \<forall>w. nodeCache s (ts_id n) = Some w \<longrightarrow> w \<in> fst ` set L"
    and "nodeCache s' = (\<lambda>i. if i \<in> ts_id ` set po then None else nodeCache s i)"
  using assms unfolding disposal_def by simp_all

text \<open>
  C1.  Let \<open>this\<close> be the live wrapper registered for the compiler node \<open>t\<close>, in a state
  whose cache agrees with the nodes of \<open>t\<close> (which have distinct identities).  Then
  \<open>dispose this\<close> returns normally, and the calls of \<^verbatim>\<open>disposeOnlyThis\<close> it made are, in
  order, on wrappers bound to the nodes of \<open>t\<close> in postorder: every descendant before
  its ancestors, \<open>this\<close> last.  Afterwards each of these wrappers has no compiler node,
  no node of \<open>t\<close> has a cache entry, and every wrapper the cache held for a node of \<open>t\<close>
  is among the disposed.
\<close>

theorem dispose_is_depth_first:
  assumes ok: "cache_ok s (set (subtrees t))"
    and ids: "distinct (map ts_id (subtrees t))"
    and reg: "nodeCache s (ts_id t) = Some this"
  shows "\<exists>L s'. dispose this s = Some (Inr (), s')
           \<and> disposeLog s' = disposeLog s @ L @ [(this, Some t)]
           \<and> map snd (L @ [(this, Some t)]) = map Some (postorder t)
           \<and> (\<forall>w\<in>fst ` set (L @ [(this, Some t)]). private_compilerNode (heap s' w) = None)
           \<and> (\<forall>n\<in>set (subtrees t). nodeCache s' (ts_id n) = None)
           \<and> (\<forall>n\<in>set (subtrees t). \<forall>w. nodeCache s (ts_id n) = Some w \<longrightarrow>
                 w \<in> fst ` set (L @ [(this, Some t)]))
           \<and> private_compilerNode (heap s this) = Some t
           \<and> private_compilerNode (heap s' this) = None"
proof -
  have inj: "inj_on ts_id (set (subtrees t))" and d: "distinct (subtrees t)"
    using ids by (simp_all add: distinct_map)
  from dispose_tree[OF inj ok subset_refl d reg]
  obtain L s' where r: "dispose this s = Some (Inr (), s')"
    and p: "disposal s (postorder t) (L @ [(this, Some t)]) s'"
    by blast
  have live: "private_compilerNode (heap s this) = Some t"
    using ok reg self_in_subtrees[of t] by (auto simp: cache_ok_def)
  note a = disposalD(1)[OF p] and b = disposalD(2)[OF p] and c = disposalD(3)[OF p]
    and f = disposalD(5)[OF p]
  have e: "\<forall>n\<in>set (subtrees t). \<forall>w. nodeCache s (ts_id n) = Some w \<longrightarrow>
                 w \<in> fst ` set (L @ [(this, Some t)])"
    using disposalD(4)[OF p] by (simp only: set_postorder)
  from f have g: "\<forall>n\<in>set (subtrees t). nodeCache s' (ts_id n) = None"
    by (simp add: set_postorder)
  from c have h: "private_compilerNode (heap s' this) = None" by simp
  from r a b c g e live h show ?thesis by blast
qed

theorem dispose_is_depth_first_witness:
  "\<exists>L s'. dispose 0 exampleWorld = Some (Inr (), s')
         \<and> disposeLog s' = L @ [(0, Some exampleTree)]
         \<and> map snd (L @ [(0, Some exampleTree)]) =
             [Some (TsNode 2 ExpressionStatement 0 2 []),
              Some (TsNode 1 SyntaxList 0 2 [TsNode 2 ExpressionStatement 0 2 []]),
              Some (TsNode 3 EndOfFileToken 2 2 []),
              Some exampleTree]
         \<and> nodeCache s' 0 = None \<and> nodeCache s' 1 = None \<and> nodeCache s' 2 = None \<and> nodeCache s' 3 = None
         \<and> private_compilerNode (heap s' 0) = None"
proof -
  have ok: "cache_ok exampleWorld (set (subtrees exampleTree))"
    by (simp add: cache_ok_def exampleWorld_def exampleTree_def)
  have ids: "distinct (map ts_id (subtrees exampleTree))"
    by (simp add: exampleTree_def)
  have reg: "nodeCache exampleWorld (ts_id exampleTree) = Some 0"
    by (simp add: exampleWorld_def exampleTree_def)
  from dispose_is_depth_first[OF ok ids reg]
  obtain L s' where r: "dispose 0 exampleWorld = Some (Inr (), s')"
    and a: "disposeLog s' = disposeLog exampleWorld @ L @ [(0, Some exampleTree)]"
    and b: "map snd (L @ [(0, Some exampleTree)]) = map Some (postorder exampleTree)"
    and g: "\<forall>n\<in>set (subtrees exampleTree). nodeCache s' (ts_id n) = None"
    and h: "private_compilerNode (heap s' 0) = None"
    by blast
  have a': "disposeLog s' = L @ [(0, Some exampleTree)]"
    using a by (simp add: exampleWorld_def)
  have b': "map snd (L @ [(0, Some exampleTree)]) =
             [Some (TsNode 2 ExpressionStatement 0 2 []),
              Some (TsNode 1 SyntaxList 0 2 [TsNode 2 ExpressionStatement 0 2 []]),
              Some (TsNode 3 EndOfFileToken 2 2 []),
              Some exampleTree]"
    unfolding b by (simp add: exampleTree_def)
  have g': "nodeCache s' 0 = None \<and> nodeCache s' 1 = None \<and> nodeCache s' 2 = None \<and> nodeCache s' 3 = None"
    using g by (simp add: exampleTree_def)
  from r a' b' g' h show ?thesis
    by (intro exI[of _ L] exI[of _ s']) simp
qed

text \<open>Disposing again.\<close>

lemma dispose_disposed:
  assumes d: "private_compilerNode (heap s this) = None"
  shows "dispose this s = Some (Inl removedFromAst, s)"
proof -
  have "getChildren this s = (Inl removedFromAst, s)"
    using d by (simp add: getChildren_def bindM_def compilerNode_def)
  then have "liftP (getChildren this) s = Some (Inl removedFromAst, s)"
    by (simp add: liftP_def)
  then show ?thesis
    by (subst dispose.simps) (simp add: bindP_def)
qed

text \<open>
  C3, as the code has it.  On a wrapper that is already disposed, \<open>dispose\<close> changes
  nothing (the state it leaves is the state it found), but it does not return normally:
  it throws the InvalidOperationError of the getter \<^verbatim>\<open>compilerNode\<close>, which
  \<^verbatim>\<open>getChildren\<close> reads first.
\<close>

theorem dispose_twice_fails_and_changes_nothing:
  assumes "private_compilerNode (heap s this) = None"
  shows "dispose this s = Some (Inl removedFromAst, s)"
  using assms by (rule dispose_disposed)

theorem dispose_twice_fails_and_changes_nothing_witness:
  "private_compilerNode (heap disposedWorld 0) = None
   \<and> dispose 0 disposedWorld = Some (Inl removedFromAst, disposedWorld)"
proof -
  have d: "private_compilerNode (heap disposedWorld 0) = None"
    by (simp add: disposedWorld_def)
  from d dispose_twice_fails_and_changes_nothing[OF d] show ?thesis by simp
qed

lemma leaf_disposed: "dispose 0 leafWorld = Some (Inr (), disposedWorld)"
proof -
  have g: "liftP (getChildren 0) leafWorld = Some (Inr [], leafWorld)"
    by (simp add: liftP_def getChildren_def bindM_def compilerNode_def leafWorld_def returnM_def)
  have f: "forEachP dispose [] leafWorld = Some (Inr (), leafWorld)" by simp
  have fs: "liftP (disposeOnlyThis 0) leafWorld = Some (Inr (), disposedWorld)"
    by (simp add: liftP_def disposeOnlyThis_result disposedWorld_def) (simp add: leafWorld_def)
  show ?thesis
    by (subst dispose.simps)
       (simp only: bindP_Inr[of "liftP (getChildren 0)", OF g]
                   bindP_Inr[of "forEachP dispose []", OF f] fs)
qed

text \<open>
  C3 as stated fails: the wrapper of an end-of-file token is disposed, and disposing it
  a second time raises an error.
\<close>

theorem dispose_idempotence_counterexample:
  "dispose 0 leafWorld = Some (Inr (), disposedWorld)
   \<and> dispose 0 disposedWorld = Some (Inl removedFromAst, disposedWorld)
   \<and> isInvalidOperationError removedFromAst"
proof -
  have d: "private_compilerNode (heap disposedWorld 0) = None"
    by (simp add: disposedWorld_def)
  from leaf_disposed dispose_disposed[OF d] show ?thesis by simp
qed

lemma bindM_compilerNode_disposed:
  "private_compilerNode (heap s this) = None \<Longrightarrow>
   bindM (compilerNode this) f s = (Inl removedFromAst, s)"
  by (simp add: bindM_def compilerNode_def)

lemma getPos_disposed:
  "private_compilerNode (heap s this) = None \<Longrightarrow> getPos this s = (Inl removedFromAst, s)"
  by (simp add: getPos_def bindM_compilerNode_disposed)

lemma getParent_disposed:
  "private_compilerNode (heap s this) = None \<Longrightarrow> getParent this s = (Inl removedFromAst, s)"
  by (simp add: getParent_def bindM_compilerNode_disposed)

lemma getParentSyntaxList_disposed:
  "private_compilerNode (heap s this) = None \<Longrightarrow>
   getParentSyntaxList this s = (Inl removedFromAst, s)"
  by (simp add: getParentSyntaxList_def bindM_Inl[OF getParent_disposed])

lemma getParentSyntaxList_or_ParentOrThrow_disposed:
  "private_compilerNode (heap s this) = None \<Longrightarrow>
   getParentSyntaxList_or_ParentOrThrow this s = (Inl removedFromAst, s)"
  by (simp add: getParentSyntaxList_or_ParentOrThrow_def bindM_Inl[OF getParentSyntaxList_disposed])

lemma getChildAtPos_disposed:
  "private_compilerNode (heap s this) = None \<Longrightarrow>
   getChildAtPos this p s = (Inl removedFromAst, s)"
  by (simp add: getChildAtPos_def orM_def bindM_def getPos_disposed)

lemma getDescendantAtPos_disposed:
  assumes d: "private_compilerNode (heap s this) = None"
  shows "getDescendantAtPos this p s = Some (Inl removedFromAst, s)"
proof -
  have "liftP (getChildAtPos (case None of None \<Rightarrow> this | Some n \<Rightarrow> n) p) s
        = Some (Inl removedFromAst, s)"
    using getChildAtPos_disposed[OF d] by (simp add: liftP_def)
  then show ?thesis
    unfolding getDescendantAtPos_def
    by (subst getDescendantAtPos_loop.simps) (simp add: bindP_def)
qed

lemma setSourceFile_disposed:
  assumes d: "private_compilerNode (heap s this) = None"
  shows "setSourceFile this sf s =
           Some (Inl removedFromAst, s\<lparr>heap := (heap s)(this := (heap s this)\<lparr>sourceFile := sf\<rparr>)\<rparr>)"
proof -
  let ?s1 = "s\<lparr>heap := (heap s)(this := (heap s this)\<lparr>sourceFile := sf\<rparr>)\<rparr>"
  have d1: "private_compilerNode (heap ?s1 this) = None" using d by simp
  have g: "getChildren this ?s1 = (Inl removedFromAst, ?s1)"
    by (simp add: getChildren_def bindM_compilerNode_disposed[OF d1])
  show ?thesis
    by (subst setSourceFile.simps) (simp add: bindP_def liftP_def g)
qed

text \<open>
  C4, as the code has it.  \<^verbatim>\<open>disposeOnlyThis\<close> leaves the wrapper without a compiler
  node, and on a wrapper without one the getter \<^verbatim>\<open>compilerNode\<close> throws an
  InvalidOperationError.  So an operation that reads \<open>this.compilerNode\<close> fails with that
  error at the read: whatever ran before the read (\<open>pre\<close>, which leaves the wrapper as
  it is) and whatever would follow (\<open>k\<close>).  The operations of \<open>Node\<close> modelled here that
  read it all fail so; \<^verbatim>\<open>setSourceFile\<close> has assigned the field \<open>sourceFile\<close> by then.
  \<^verbatim>\<open>getSourceFile\<close> does not read it and returns the source file as before, and
  \<^verbatim>\<open>replaceCompilerNode\<close> binds the wrapper again, after which the getter works.
\<close>

theorem reading_compilerNode_of_a_disposed_wrapper_fails:
  assumes d: "private_compilerNode (heap s this) = None"
  shows "compilerNode this s = (Inl removedFromAst, s)
       \<and> isInvalidOperationError removedFromAst
       \<and> (\<forall>f. bindM (compilerNode this) f s = (Inl removedFromAst, s))
       \<and> (\<forall>pre k x s1. pre s0 = (Inr x, s1) \<and> private_compilerNode (heap s1 this) = None \<longrightarrow>
             bindM pre (\<lambda>x. bindM (compilerNode this) (k x)) s0 = (Inl removedFromAst, s1))
       \<and> getKind this s = (Inl removedFromAst, s)
       \<and> getPos this s = (Inl removedFromAst, s)
       \<and> getEnd this s = (Inl removedFromAst, s)
       \<and> containsRange this p e s = (Inl removedFromAst, s)
       \<and> getChildren this s = (Inl removedFromAst, s)
       \<and> getChildrenIterator_start this s = (Inl removedFromAst, s)
       \<and> getChildAtPos this p s = (Inl removedFromAst, s)
       \<and> getDescendantAtPos this p s = Some (Inl removedFromAst, s)
       \<and> getParent this s = (Inl removedFromAst, s)
       \<and> getParentOrThrow this s = (Inl removedFromAst, s)
       \<and> getParentSyntaxList this s = (Inl removedFromAst, s)
       \<and> getPreviousSiblings this s = (Inl removedFromAst, s)
       \<and> getNextSiblings this s = (Inl removedFromAst, s)
       \<and> getFirstChild this c s = (Inl removedFromAst, s)
       \<and> getFirstChildByKind this kd s = (Inl removedFromAst, s)
       \<and> dispose this s = Some (Inl removedFromAst, s)
       \<and> setSourceFile this sf s =
           Some (Inl removedFromAst, s\<lparr>heap := (heap s)(this := (heap s this)\<lparr>sourceFile := sf\<rparr>)\<rparr>)
       \<and> getSourceFile this s = (Inr (sourceFile (heap s this)), s)
       \<and> fst (replaceCompilerNode this cn s) = Inr ()
       \<and> compilerNode this (snd (replaceCompilerNode this cn s))
           = (Inr cn, snd (replaceCompilerNode this cn s))
       \<and> private_compilerNode (heap (snd (disposeOnlyThis w s)) w) = None"
proof -
  note b = bindM_compilerNode_disposed[OF d]
  have 1: "compilerNode this s = (Inl removedFromAst, s)" using d by (rule compilerNode_disposed)
  have 2: "\<forall>f. bindM (compilerNode this) f s = (Inl removedFromAst, s)"
    by (intro allI) (rule b)
  have 3: "getKind this s = (Inl removedFromAst, s)" by (simp add: getKind_def b)
  have 4: "getPos this s = (Inl removedFromAst, s)" using d by (rule getPos_disposed)
  have 5: "getEnd this s = (Inl removedFromAst, s)" by (simp add: getEnd_def b)
  have 6: "containsRange this p e s = (Inl removedFromAst, s)"
    by (simp add: containsRange_def andM_def bindM_def 4)
  have 7: "getChildren this s = (Inl removedFromAst, s)" by (simp add: getChildren_def b)
  have 8: "getChildrenIterator_start this s = (Inl removedFromAst, s)"
    by (simp add: getChildrenIterator_start_def b)
  have 9: "getChildAtPos this p s = (Inl removedFromAst, s)" using d by (rule getChildAtPos_disposed)
  have 10: "getDescendantAtPos this p s = Some (Inl removedFromAst, s)"
    using d by (rule getDescendantAtPos_disposed)
  have 11: "getParent this s = (Inl removedFromAst, s)" using d by (rule getParent_disposed)
  have 12: "getParentOrThrow this s = (Inl removedFromAst, s)"
    by (simp add: getParentOrThrow_def bindM_Inl[of "getParent this", OF 11])
  have 13: "getParentSyntaxList this s = (Inl removedFromAst, s)"
    using d by (rule getParentSyntaxList_disposed)
  have 14: "getPreviousSiblings this s = (Inl removedFromAst, s)"
    by (simp add: getPreviousSiblings_def
          bindM_Inl[of "getParentSyntaxList_or_ParentOrThrow this",
            OF getParentSyntaxList_or_ParentOrThrow_disposed[OF d]])
  have 15: "getNextSiblings this s = (Inl removedFromAst, s)"
    by (simp add: getNextSiblings_def
          bindM_Inl[of "getParentSyntaxList_or_ParentOrThrow this",
            OF getParentSyntaxList_or_ParentOrThrow_disposed[OF d]])
  have 16: "dispose this s = Some (Inl removedFromAst, s)" using d by (rule dispose_disposed)
  have 17: "getSourceFile this s = (Inr (sourceFile (heap s this)), s)"
    by (simp add: getSourceFile_def)
  have 18: "private_compilerNode (heap (snd (disposeOnlyThis w s)) w) = None"
    by (simp add: disposeOnlyThis_result)
  have 19: "\<forall>pre k x s1. pre s0 = (Inr x, s1) \<and> private_compilerNode (heap s1 this) = None \<longrightarrow>
             bindM pre (\<lambda>x. bindM (compilerNode this) (k x)) s0 = (Inl removedFromAst, s1)"
    by (simp add: bindM_def compilerNode_def)
  have 20: "getFirstChild this c s = (Inl removedFromAst, s)"
    by (simp add: getFirstChild_def bindM_Inl[of "getChildrenIterator_start this", OF 8])
  have 21: "getFirstChildByKind this kd s = (Inl removedFromAst, s)"
    by (simp add: getFirstChildByKind_def getFirstChild_def
          bindM_Inl[of "getChildrenIterator_start this", OF 8])
  have 22: "setSourceFile this sf s =
           Some (Inl removedFromAst, s\<lparr>heap := (heap s)(this := (heap s this)\<lparr>sourceFile := sf\<rparr>)\<rparr>)"
    using d by (rule setSourceFile_disposed)
  have 23: "fst (replaceCompilerNode this cn s) = Inr ()"
    by (simp add: replaceCompilerNode_def)
  have 24: "compilerNode this (snd (replaceCompilerNode this cn s))
              = (Inr cn, snd (replaceCompilerNode this cn s))"
    by (simp add: replaceCompilerNode_def compilerNode_def)
  have 0: "isInvalidOperationError removedFromAst" by simp
  show ?thesis
    by (intro conjI)
       (rule 1, rule 0, rule 2, rule 19, rule 3, rule 4, rule 5, rule 6, rule 7, rule 8, rule 9,
        rule 10, rule 11, rule 12, rule 13, rule 14, rule 15, rule 20, rule 21, rule 16, rule 22,
        rule 17, rule 23, rule 24, rule 18)
qed

theorem reading_compilerNode_of_a_disposed_wrapper_fails_witness:
  "private_compilerNode (heap disposedWorld 0) = None
   \<and> compilerNode 0 disposedWorld = (Inl removedFromAst, disposedWorld)
   \<and> getPos 0 disposedWorld = (Inl removedFromAst, disposedWorld)
   \<and> getChildren 0 disposedWorld = (Inl removedFromAst, disposedWorld)
   \<and> getParent 0 disposedWorld = (Inl removedFromAst, disposedWorld)
   \<and> map_option fst (setSourceFile 0 1 disposedWorld) = Some (Inl removedFromAst)
   \<and> bindM (getSourceFile 0) (\<lambda>sf. bindM (compilerNode 0) (\<lambda>cn. returnM (sf, cn))) disposedWorld
       = (Inl removedFromAst, disposedWorld)"
proof -
  have d: "private_compilerNode (heap disposedWorld 0) = None"
    by (simp add: disposedWorld_def)
  have g: "getSourceFile 0 disposedWorld = (Inr 0, disposedWorld)
           \<and> private_compilerNode (heap disposedWorld 0) = None"
    by (simp add: getSourceFile_def disposedWorld_def leafWorld_def)
  note t = reading_compilerNode_of_a_disposed_wrapper_fails
    [OF d, where ?s0.0 = disposedWorld and p = 0 and e = 0 and c = None and kd = SourceFile
       and sf = 1 and w = 0 and cn = "TsNode 3 EndOfFileToken 2 2 []"]
  have a1: "compilerNode 0 disposedWorld = (Inl removedFromAst, disposedWorld)"
    using t by (elim conjE)
  have a2: "getPos 0 disposedWorld = (Inl removedFromAst, disposedWorld)"
    using t by (elim conjE)
  have a3: "getChildren 0 disposedWorld = (Inl removedFromAst, disposedWorld)"
    using t by (elim conjE)
  have a4: "getParent 0 disposedWorld = (Inl removedFromAst, disposedWorld)"
    using t by (elim conjE)
  have "setSourceFile 0 1 disposedWorld =
           Some (Inl removedFromAst,
                 disposedWorld\<lparr>heap := (heap disposedWorld)(0 := (heap disposedWorld 0)\<lparr>sourceFile := 1\<rparr>)\<rparr>)"
    using t by (elim conjE)
  then have b: "map_option fst (setSourceFile 0 1 disposedWorld) = Some (Inl removedFromAst)"
    by simp
  have q: "\<forall>pre k x s1. pre disposedWorld = (Inr x, s1) \<and> private_compilerNode (heap s1 0) = None \<longrightarrow>
             bindM pre (\<lambda>x. bindM (compilerNode 0) (k x)) disposedWorld = (Inl removedFromAst, s1)"
    using t by (elim conjE)
  have c: "bindM (getSourceFile 0) (\<lambda>sf. bindM (compilerNode 0) (\<lambda>cn. returnM (sf, cn))) disposedWorld
       = (Inl removedFromAst, disposedWorld)"
    using q[rule_format, of "getSourceFile 0" 0 disposedWorld "\<lambda>sf cn. returnM (sf, cn)"] g
    by simp
  show ?thesis
    by (intro conjI) (rule d, rule a1, rule a2, rule a3, rule a4, rule b, rule c)
qed

text \<open>
  C4 as stated fails: on a disposed wrapper \<^verbatim>\<open>getSourceFile\<close>, which is not an identity
  comparison, returns normally; and \<^verbatim>\<open>replaceCompilerNode\<close> binds the wrapper again,
  after which the getter works.
\<close>

theorem disposed_wrapper_operations_counterexample:
  "private_compilerNode (heap disposedWorld 0) = None
   \<and> getSourceFile 0 disposedWorld = (Inr 0, disposedWorld)
   \<and> fst (replaceCompilerNode 0 (TsNode 3 EndOfFileToken 2 2 []) disposedWorld) = Inr ()
   \<and> fst (compilerNode 0 (snd (replaceCompilerNode 0 (TsNode 3 EndOfFileToken 2 2 []) disposedWorld)))
       = Inr (TsNode 3 EndOfFileToken 2 2 [])"
  by (simp add: disposedWorld_def leafWorld_def getSourceFile_def replaceCompilerNode_def
        compilerNode_def)

lemma navigable_cache_ok: "navigable s N \<Longrightarrow> cache_ok s N"
  by (simp add: navigable_def cache_ok_def)

lemma navigableD:
  assumes "navigable s N" and "n \<in> N" and "nodeCache s (ts_id n) = Some w"
  shows "w < nextRef s" and "private_compilerNode (heap s w) = Some n"
    and "sourceFile (heap s w) < nextRef s"
    and "private_compilerNode (heap s (sourceFile (heap s w))) \<noteq> None"
  using assms unfolding navigable_def by blast+

lemma yield_nav:
  assumes nav: "navigable s N" and inj: "inj_on ts_id N" and c: "c \<in> N"
    and p: "p \<in> N" and pw: "nodeCache s (ts_id p) = Some parent"
  shows "\<exists>w s1. getChildrenIterator_yield parent c s = (Inr w, s1)
           \<and> nodeCache s1 (ts_id c) = Some w
           \<and> navigable s1 N \<and> extends s s1"
proof -
  let ?sf = "sourceFile (heap s parent)"
  note P = navigableD[OF nav p pw]
  have y: "getChildrenIterator_yield parent c s = getNodeFromCompilerNode c ?sf s"
    by (simp add: getChildrenIterator_yield_def bindM_def getSourceFile_def)
  show ?thesis
  proof (cases "nodeCache s (ts_id c)")
    case (Some w)
    then show ?thesis using nav y by (simp add: getNodeFromCompilerNode_def extends_refl)
  next
    case None
    let ?w = "nextRef s"
    let ?s1 = "s\<lparr>nodeCache := (nodeCache s)(ts_id c \<mapsto> ?w),
                  heap := (heap s)(?w := \<lparr>global = containerId s, private_compilerNode = Some c, sourceFile = ?sf\<rparr>),
                  nextRef := Suc ?w\<rparr>"
    have r: "getNodeFromCompilerNode c ?sf s = (Inr ?w, ?s1)"
      using None by (simp add: getNodeFromCompilerNode_def Let_def)
    have nav1: "navigable ?s1 N"
      unfolding navigable_def
    proof (intro ballI allI impI)
      fix n w assume n: "n \<in> N" and w: "nodeCache ?s1 (ts_id n) = Some w"
      show "w < nextRef ?s1 \<and> private_compilerNode (heap ?s1 w) = Some n
            \<and> sourceFile (heap ?s1 w) < nextRef ?s1
            \<and> private_compilerNode (heap ?s1 (sourceFile (heap ?s1 w))) \<noteq> None"
      proof (cases "ts_id n = ts_id c")
        case True
        then have "n = c" using inj n c by (auto dest: inj_onD)
        with w P(3,4) show ?thesis by auto
      next
        case False
        with w have "nodeCache s (ts_id n) = Some w" by simp
        note Q = navigableD[OF nav n this]
        from Q show ?thesis by auto
      qed
    qed
    have ext: "extends s ?s1" using None by (auto simp: extends_def)
    show ?thesis using y r nav1 ext by simp
  qed
qed

lemma getPos_live:
  "private_compilerNode (heap s w) = Some n \<Longrightarrow> getPos w s = (Inr (ts_pos n), s)"
  by (simp add: getPos_def bindM_def compilerNode_def returnM_def)

lemma getEnd_live:
  "private_compilerNode (heap s w) = Some n \<Longrightarrow> getEnd w s = (Inr (ts_end n), s)"
  by (simp add: getEnd_def bindM_def compilerNode_def returnM_def)

lemma getKind_live:
  "private_compilerNode (heap s w) = Some n \<Longrightarrow> getKind w s = (Inr (ts_kind n), s)"
  by (simp add: getKind_def bindM_def compilerNode_def returnM_def)

lemma spans_test:
  assumes "private_compilerNode (heap s w) = Some c"
  shows "andM (bindM (getPos w) (\<lambda>cp. returnM (p \<ge> cp)))
              (bindM (getEnd w) (\<lambda>ce. returnM (p < ce))) s = (Inr (spans p c), s)"
  using assms
  by (auto simp: andM_def bindM_def getPos_live getEnd_live returnM_def spans_def)

lemma getChildAtPos_loop_nav:
  assumes inj: "inj_on ts_id N" and t: "t \<in> N"
  shows "navigable s N \<Longrightarrow> set cs \<subseteq> N \<Longrightarrow> nodeCache s (ts_id t) = Some this \<Longrightarrow>
     \<exists>r s1. getChildAtPos_loop this p cs s = (Inr r, s1)
        \<and> navigable s1 N \<and> extends s s1
        \<and> (case find (spans p) cs of
              None \<Rightarrow> r = None
            | Some c \<Rightarrow> \<exists>w. r = Some w \<and> nodeCache s1 (ts_id c) = Some w)"
proof (induction cs arbitrary: s)
  case Nil
  then show ?case by (simp add: returnM_def extends_refl)
next
  case (Cons c cs)
  from Cons.prems have cN: "c \<in> N" and csN: "set cs \<subseteq> N" by auto
  from yield_nav[OF Cons.prems(1) inj cN t Cons.prems(3)]
  obtain w s1 where y: "getChildrenIterator_yield this c s = (Inr w, s1)"
    and cw: "nodeCache s1 (ts_id c) = Some w"
    and nav1: "navigable s1 N" and e1: "extends s s1"
    by blast
  have b: "private_compilerNode (heap s1 w) = Some c"
    by (rule navigableD(2)[OF nav1 cN cw])
  have tw: "nodeCache s1 (ts_id t) = Some this"
    using e1 Cons.prems(3) by (auto simp: extends_def)
  show ?case
  proof (cases "spans p c")
    case True
    have "getChildAtPos_loop this p (c # cs) s = (Inr (Some w), s1)"
      using y spans_test[OF b, of p] True by (simp add: bindM_def returnM_def)
    with True cw nav1 e1 show ?thesis by simp
  next
    case False
    have step: "getChildAtPos_loop this p (c # cs) s = getChildAtPos_loop this p cs s1"
      using y spans_test[OF b, of p] False by (simp add: bindM_def returnM_def)
    from Cons.IH[OF nav1 csN tw]
    obtain r s2 where l: "getChildAtPos_loop this p cs s1 = (Inr r, s2)"
      and nav2: "navigable s2 N" and e2: "extends s1 s2"
      and f: "case find (spans p) cs of
              None \<Rightarrow> r = None
            | Some c \<Rightarrow> \<exists>w. r = Some w \<and> nodeCache s2 (ts_id c) = Some w"
      by blast
    from step l nav2 extends_trans[OF e1 e2] f False show ?thesis by simp
  qed
qed

lemma getChildAtPos_nav:
  assumes inj: "inj_on ts_id N" and nav: "navigable s N" and sub: "set (subtrees t) \<subseteq> N"
    and tw: "nodeCache s (ts_id t) = Some this"
  shows "\<exists>r s1. getChildAtPos this p s = (Inr r, s1)
        \<and> navigable s1 N \<and> extends s s1
        \<and> (case ts_getChildAtPos p t of
              None \<Rightarrow> r = None
            | Some c \<Rightarrow> \<exists>w. r = Some w \<and> nodeCache s1 (ts_id c) = Some w)"
proof -
  have tN: "t \<in> N" using sub self_in_subtrees[of t] by auto
  note T = navigableD[OF nav tN tw]
  have o: "orM (bindM (getPos this) (\<lambda>tp. returnM (p < tp)))
               (bindM (getEnd this) (\<lambda>te. returnM (p \<ge> te))) s
           = (Inr (p < ts_pos t \<or> p \<ge> ts_end t), s)"
    using T(2) by (auto simp: orM_def bindM_def getPos_live getEnd_live returnM_def)
  show ?thesis
  proof (cases "p < ts_pos t \<or> p \<ge> ts_end t")
    case True
    have "getChildAtPos this p s = (Inr None, s)"
      using o True by (simp add: getChildAtPos_def bindM_def returnM_def)
    with True nav show ?thesis by (simp add: ts_getChildAtPos_def extends_refl)
  next
    case False
    have st: "getChildrenIterator_start this s = (Inr (ts_getChildren t), s)"
      using T(2,4)
      by (auto simp: getChildrenIterator_start_def bindM_def compilerNode_def getSourceFile_def returnM_def)
    have g: "getChildAtPos this p s = getChildAtPos_loop this p (ts_getChildren t) s"
      using o False st by (simp add: getChildAtPos_def bindM_def)
    have csN: "set (ts_getChildren t) \<subseteq> N"
    proof
      fix c assume "c \<in> set (ts_getChildren t)"
      then have "c \<in> set (subtrees t)" using self_in_subtrees[of c] by (cases t) auto
      with sub show "c \<in> N" by auto
    qed
    from getChildAtPos_loop_nav[OF inj tN nav csN tw, of p] g False
    show ?thesis by (simp add: ts_getChildAtPos_def)
  qed
qed

section \<open>Positional queries\<close>

lemma find_spans: "find (spans p) cs = Some c \<Longrightarrow> c \<in> set cs \<and> spans p c"
  by (induction cs) (auto split: if_splits)

lemma ts_getChildAtPos_Some:
  "ts_getChildAtPos p t = Some c \<Longrightarrow> c \<in> set (ts_getChildren t) \<and> spans p c"
  by (auto simp: ts_getChildAtPos_def dest: find_spans split: if_splits)

lemma deepest_spans: "spans p c \<Longrightarrow> spans p (ts_deepestAtPos p c)"
proof (induction p c rule: ts_deepestAtPos.induct)
  case (1 p t)
  show ?case
  proof (cases "ts_getChildAtPos p t")
    case None
    with "1.prems" show ?thesis by (subst ts_deepestAtPos.simps) simp
  next
    case (Some c)
    from ts_getChildAtPos_Some[OF Some] have "spans p c" by simp
    from "1.IH"[OF Some this] Some show ?thesis
      by (subst ts_deepestAtPos.simps) simp
  qed
qed

lemma deepest_in_subtrees: "ts_deepestAtPos p t \<in> set (subtrees t)"
proof (induction p t rule: ts_deepestAtPos.induct)
  case (1 p t)
  show ?case
  proof (cases "ts_getChildAtPos p t")
    case None
    then show ?thesis using self_in_subtrees[of t] by (subst ts_deepestAtPos.simps) simp
  next
    case (Some c)
    from ts_getChildAtPos_Some[OF Some] have c: "c \<in> set (ts_getChildren t)" by simp
    from "1.IH"[OF Some] child_subtrees[OF c] Some show ?thesis
      by (subst ts_deepestAtPos.simps) auto
  qed
qed

lemma ts_getDescendantAtPos_spans:
  "ts_getDescendantAtPos p t = Some m \<Longrightarrow> spans p m \<and> m \<in> set (subtrees t)"
proof -
  assume a: "ts_getDescendantAtPos p t = Some m"
  then obtain c where c: "ts_getChildAtPos p t = Some c" and m: "m = ts_deepestAtPos p c"
    by (auto simp: ts_getDescendantAtPos_def)
  from ts_getChildAtPos_Some[OF c] have cc: "c \<in> set (ts_getChildren t)" and sp: "spans p c"
    by simp_all
  from deepest_spans[OF sp] deepest_in_subtrees[of p c] child_subtrees[OF cc] m
  show ?thesis by auto
qed

lemma find_None_iff_spans: "find (spans p) cs = None \<longleftrightarrow> (\<forall>c\<in>set cs. \<not> spans p c)"
  by (induction cs) auto

lemma ts_getDescendantAtPos_None:
  "ts_getDescendantAtPos p t = None \<longleftrightarrow>
     \<not> spans p t \<or> (\<forall>c\<in>set (ts_getChildren t). \<not> spans p c)"
  by (auto simp: ts_getDescendantAtPos_def ts_getChildAtPos_def find_None_iff_spans spans_def)

lemma spans_unique:
  "sorted_wrt (\<lambda>a b. ts_end a \<le> ts_pos b) cs \<Longrightarrow> find (spans p) cs = Some c \<Longrightarrow>
   filter (spans p) cs = [c]"
proof (induction cs)
  case Nil
  then show ?case by simp
next
  case (Cons a cs)
  show ?case
  proof (cases "spans p a")
    case True
    with Cons.prems have ac: "a = c" by simp
    have "\<forall>b\<in>set cs. \<not> spans p b"
    proof
      fix b assume "b \<in> set cs"
      with Cons.prems(1) have "ts_end a \<le> ts_pos b" by simp
      with True show "\<not> spans p b" by (auto simp: spans_def)
    qed
    then have "filter (spans p) cs = []" by (simp add: filter_empty_conv)
    with True ac show ?thesis by simp
  next
    case False
    with Cons show ?thesis by simp
  qed
qed

lemma containsRange_spans:
  assumes "private_compilerNode (heap s w) = Some m" and "spans p m"
  shows "containsRange w p p s = (Inr True, s)"
  using assms
  by (auto simp: containsRange_def andM_def bindM_def getPos_live getEnd_live returnM_def spans_def)

lemma descend_nav:
  assumes inj: "inj_on ts_id N"
  shows "navigable s N \<Longrightarrow> set (subtrees t) \<subseteq> N \<Longrightarrow> nodeCache s (ts_id t) = Some cur \<Longrightarrow>
     \<exists>r s1. getDescendantAtPos_loop this (Some cur) p s = Some (Inr (Some r), s1)
        \<and> navigable s1 N \<and> extends s s1
        \<and> nodeCache s1 (ts_id (ts_deepestAtPos p t)) = Some r"
proof (induction p t arbitrary: s cur rule: ts_deepestAtPos.induct)
  case (1 p t)
  from getChildAtPos_nav[OF inj "1.prems"(1,2,3), of p]
  obtain r0 s1 where g: "getChildAtPos cur p s = (Inr r0, s1)"
    and nav1: "navigable s1 N" and e1: "extends s s1"
    and f: "case ts_getChildAtPos p t of
              None \<Rightarrow> r0 = None
            | Some c \<Rightarrow> \<exists>w. r0 = Some w \<and> nodeCache s1 (ts_id c) = Some w"
    by blast
  have g': "liftP (getChildAtPos cur p) s = Some (Inr r0, s1)"
    using g by (simp add: liftP_def)
  show ?case
  proof (cases "ts_getChildAtPos p t")
    case None
    with f have r0: "r0 = None" by simp
    have "getDescendantAtPos_loop this (Some cur) p s = Some (Inr (Some cur), s1)"
      by (subst getDescendantAtPos_loop.simps)
         (simp add: bindP_def liftP_def g r0 returnM_def)
    moreover have "ts_deepestAtPos p t = t"
      using None by (subst ts_deepestAtPos.simps) simp
    moreover have "nodeCache s1 (ts_id t) = Some cur"
      using e1 "1.prems"(3) by (auto simp: extends_def)
    ultimately show ?thesis using nav1 e1 by simp
  next
    case (Some c)
    with f obtain w where r0: "r0 = Some w" and cw: "nodeCache s1 (ts_id c) = Some w" by auto
    from ts_getChildAtPos_Some[OF Some] have cc: "c \<in> set (ts_getChildren t)" by simp
    have cN: "set (subtrees c) \<subseteq> N" using child_subtrees[OF cc] "1.prems"(2) by auto
    from "1.IH"[OF Some nav1 cN cw]
    obtain r s2 where l: "getDescendantAtPos_loop this (Some w) p s1 = Some (Inr (Some r), s2)"
      and nav2: "navigable s2 N" and e2: "extends s1 s2"
      and d: "nodeCache s2 (ts_id (ts_deepestAtPos p c)) = Some r"
      by blast
    have "getDescendantAtPos_loop this (Some cur) p s = Some (Inr (Some r), s2)"
      by (subst getDescendantAtPos_loop.simps)
         (simp add: bindP_def liftP_def g r0 l)
    moreover have "ts_deepestAtPos p t = ts_deepestAtPos p c"
      using Some by (subst ts_deepestAtPos.simps) simp
    ultimately show ?thesis using nav2 extends_trans[OF e1 e2] d by simp
  qed
qed

lemma getDescendantAtPos_nav:
  assumes inj: "inj_on ts_id N" and nav: "navigable s N" and sub: "set (subtrees t) \<subseteq> N"
    and tw: "nodeCache s (ts_id t) = Some this"
  shows "\<exists>r s1. getDescendantAtPos this p s = Some (Inr r, s1)
        \<and> navigable s1 N \<and> extends s s1
        \<and> (case ts_getDescendantAtPos p t of
              None \<Rightarrow> r = None
            | Some m \<Rightarrow> \<exists>w. r = Some w \<and> nodeCache s1 (ts_id m) = Some w)"
proof -
  from getChildAtPos_nav[OF inj nav sub tw, of p]
  obtain r0 s1 where g: "getChildAtPos this p s = (Inr r0, s1)"
    and nav1: "navigable s1 N" and e1: "extends s s1"
    and f: "case ts_getChildAtPos p t of
              None \<Rightarrow> r0 = None
            | Some c \<Rightarrow> \<exists>w. r0 = Some w \<and> nodeCache s1 (ts_id c) = Some w"
    by blast
  have g': "liftP (getChildAtPos this p) s = Some (Inr r0, s1)"
    using g by (simp add: liftP_def)
  show ?thesis
  proof (cases "ts_getChildAtPos p t")
    case None
    with f have r0: "r0 = None" by simp
    have "getDescendantAtPos this p s = Some (Inr None, s1)"
      unfolding getDescendantAtPos_def
      by (subst getDescendantAtPos_loop.simps)
         (simp add: bindP_def liftP_def g r0 returnM_def)
    with None nav1 e1 show ?thesis by (simp add: ts_getDescendantAtPos_def)
  next
    case (Some c)
    with f obtain w where r0: "r0 = Some w" and cw: "nodeCache s1 (ts_id c) = Some w" by auto
    from ts_getChildAtPos_Some[OF Some] have cc: "c \<in> set (ts_getChildren t)" by simp
    have cN: "set (subtrees c) \<subseteq> N" using child_subtrees[OF cc] sub by auto
    from descend_nav[OF inj nav1 cN cw, of this p]
    obtain r s2 where l: "getDescendantAtPos_loop this (Some w) p s1 = Some (Inr (Some r), s2)"
      and nav2: "navigable s2 N" and e2: "extends s1 s2"
      and d: "nodeCache s2 (ts_id (ts_deepestAtPos p c)) = Some r"
      by blast
    have "getDescendantAtPos this p s = Some (Inr (Some r), s2)"
      unfolding getDescendantAtPos_def
      by (subst getDescendantAtPos_loop.simps)
         (simp add: bindP_def liftP_def g r0 l)
    with Some nav2 extends_trans[OF e1 e2] d show ?thesis
      by (simp add: ts_getDescendantAtPos_def)
  qed
qed

text \<open>
  C2.  Let \<open>this\<close> be the wrapper registered for the node \<open>t\<close> in a navigable state.
  When \<open>t\<close> is a source file (it starts at \<open>0\<close> and its children cover its range) and
  \<open>p\<close> is a position in \<open>[0, ts_end t)\<close>, \<^verbatim>\<open>getDescendantAtPos\<close> returns a node, not
  undefined; the node is the deepest one reached by following \<^verbatim>\<open>getChildAtPos\<close> from
  \<open>t\<close>, and it satisfies \<open>containsRange p p\<close>.  For any node \<open>t\<close> and any \<open>p\<close>:
  \<^verbatim>\<open>getChildAtPos\<close> returns the wrapper of the first child of \<open>t\<close> that spans \<open>p\<close>, or
  undefined when there is none or \<open>p\<close> is outside \<open>t\<close>; when the children are disjoint
  in order, the child it returns is the only one that spans \<open>p\<close>; and
  \<^verbatim>\<open>getDescendantAtPos\<close> returns, with the deepest node found or undefined.
\<close>

theorem getDescendantAtPos_returns_the_deepest_spanning_node:
  assumes nav: "navigable s (set (subtrees t))"
    and ids: "distinct (map ts_id (subtrees t))"
    and reg: "nodeCache s (ts_id t) = Some this"
  shows "(ts_pos t = 0 \<and> childrenCover t \<and> 0 \<le> p \<and> p < ts_end t \<longrightarrow>
            (\<exists>w s1 m. getDescendantAtPos this p s = Some (Inr (Some w), s1)
               \<and> ts_getDescendantAtPos p t = Some m
               \<and> private_compilerNode (heap s1 w) = Some m
               \<and> containsRange w p p s1 = (Inr True, s1)))
       \<and> (\<exists>r s1. getChildAtPos this p s = (Inr r, s1)
            \<and> (case ts_getChildAtPos p t of
                  None \<Rightarrow> r = None
                | Some c \<Rightarrow> \<exists>w. r = Some w \<and> private_compilerNode (heap s1 w) = Some c \<and> spans p c))
       \<and> (sorted_wrt (\<lambda>a b. ts_end a \<le> ts_pos b) (ts_getChildren t) \<longrightarrow>
            (\<forall>c. ts_getChildAtPos p t = Some c \<longrightarrow> filter (spans p) (ts_getChildren t) = [c]))
       \<and> (\<exists>r s1. getDescendantAtPos this p s = Some (Inr r, s1)
            \<and> (case ts_getDescendantAtPos p t of
                  None \<Rightarrow> r = None
                | Some m \<Rightarrow> \<exists>w. r = Some w \<and> private_compilerNode (heap s1 w) = Some m
                              \<and> containsRange w p p s1 = (Inr True, s1)))"
proof -
  let ?N = "set (subtrees t)"
  have inj: "inj_on ts_id ?N" using ids by (simp add: distinct_map)
  have A: "\<exists>r s1. getChildAtPos this p s = (Inr r, s1)
            \<and> (case ts_getChildAtPos p t of
                  None \<Rightarrow> r = None
                | Some c \<Rightarrow> \<exists>w. r = Some w \<and> private_compilerNode (heap s1 w) = Some c \<and> spans p c)"
  proof -
    from getChildAtPos_nav[OF inj nav subset_refl reg, of p]
    obtain r s1 where g: "getChildAtPos this p s = (Inr r, s1)"
      and nav1: "navigable s1 ?N"
      and f: "case ts_getChildAtPos p t of
              None \<Rightarrow> r = None
            | Some c \<Rightarrow> \<exists>w. r = Some w \<and> nodeCache s1 (ts_id c) = Some w"
      by blast
    show ?thesis
    proof (cases "ts_getChildAtPos p t")
      case None
      with g f show ?thesis by simp
    next
      case (Some c)
      with f obtain w where r: "r = Some w" and cw: "nodeCache s1 (ts_id c) = Some w" by auto
      from ts_getChildAtPos_Some[OF Some] have cc: "c \<in> set (ts_getChildren t)" and sp: "spans p c"
        by simp_all
      have cN: "c \<in> ?N" using child_subtrees[OF cc] self_in_subtrees[of c] by auto
      from navigableD(2)[OF nav1 cN cw] g r sp Some show ?thesis by simp
    qed
  qed
  have B: "sorted_wrt (\<lambda>a b. ts_end a \<le> ts_pos b) (ts_getChildren t) \<longrightarrow>
            (\<forall>c. ts_getChildAtPos p t = Some c \<longrightarrow> filter (spans p) (ts_getChildren t) = [c])"
    by (auto simp: ts_getChildAtPos_def split: if_splits intro: spans_unique)
  have C: "\<exists>r s1. getDescendantAtPos this p s = Some (Inr r, s1)
            \<and> (case ts_getDescendantAtPos p t of
                  None \<Rightarrow> r = None
                | Some m \<Rightarrow> \<exists>w. r = Some w \<and> private_compilerNode (heap s1 w) = Some m
                              \<and> containsRange w p p s1 = (Inr True, s1))"
  proof -
    from getDescendantAtPos_nav[OF inj nav subset_refl reg, of p]
    obtain r s1 where g: "getDescendantAtPos this p s = Some (Inr r, s1)"
      and nav1: "navigable s1 ?N"
      and f: "case ts_getDescendantAtPos p t of
              None \<Rightarrow> r = None
            | Some m \<Rightarrow> \<exists>w. r = Some w \<and> nodeCache s1 (ts_id m) = Some w"
      by blast
    show ?thesis
    proof (cases "ts_getDescendantAtPos p t")
      case None
      with g f show ?thesis by simp
    next
      case (Some m)
      with f obtain w where r: "r = Some w" and mw: "nodeCache s1 (ts_id m) = Some w" by auto
      from ts_getDescendantAtPos_spans[OF Some] have sp: "spans p m" and mN: "m \<in> ?N" by simp_all
      note b = navigableD(2)[OF nav1 mN mw]
      from containsRange_spans[OF b sp] b g r Some show ?thesis by simp
    qed
  qed
  have E: "ts_pos t = 0 \<and> childrenCover t \<and> 0 \<le> p \<and> p < ts_end t \<longrightarrow>
            (\<exists>w s1 m. getDescendantAtPos this p s = Some (Inr (Some w), s1)
               \<and> ts_getDescendantAtPos p t = Some m
               \<and> private_compilerNode (heap s1 w) = Some m
               \<and> containsRange w p p s1 = (Inr True, s1))"
  proof
    assume h: "ts_pos t = 0 \<and> childrenCover t \<and> 0 \<le> p \<and> p < ts_end t"
    then have sp: "spans p t" by (simp add: spans_def)
    from h have "\<exists>c\<in>set (ts_getChildren t). spans p c" by (simp add: childrenCover_def)
    with sp have "ts_getDescendantAtPos p t \<noteq> None"
      by (simp add: ts_getDescendantAtPos_None)
    then obtain m where m: "ts_getDescendantAtPos p t = Some m" by auto
    from C obtain r s1 where g: "getDescendantAtPos this p s = Some (Inr r, s1)"
      and f: "case ts_getDescendantAtPos p t of
                  None \<Rightarrow> r = None
                | Some m \<Rightarrow> \<exists>w. r = Some w \<and> private_compilerNode (heap s1 w) = Some m
                              \<and> containsRange w p p s1 = (Inr True, s1)"
      by blast
    from f m obtain w where "r = Some w" "private_compilerNode (heap s1 w) = Some m"
      "containsRange w p p s1 = (Inr True, s1)"
      by auto
    with g m show "\<exists>w s1 m. getDescendantAtPos this p s = Some (Inr (Some w), s1)
               \<and> ts_getDescendantAtPos p t = Some m
               \<and> private_compilerNode (heap s1 w) = Some m
               \<and> containsRange w p p s1 = (Inr True, s1)"
      by blast
  qed
  from E A B C show ?thesis by blast
qed

theorem getDescendantAtPos_returns_the_deepest_spanning_node_witness:
  "ts_pos exampleTree = 0 \<and> childrenCover exampleTree \<and> (1::int) < ts_end exampleTree
   \<and> (\<exists>w s1. getDescendantAtPos 0 1 exampleWorld = Some (Inr (Some w), s1)
         \<and> ts_getDescendantAtPos 1 exampleTree = Some (TsNode 2 ExpressionStatement 0 2 [])
         \<and> private_compilerNode (heap s1 w) = Some (TsNode 2 ExpressionStatement 0 2 [])
         \<and> containsRange w 1 1 s1 = (Inr True, s1))"
proof -
  have nav: "navigable exampleWorld (set (subtrees exampleTree))"
    by (simp add: navigable_def exampleWorld_def exampleTree_def)
  have ids: "distinct (map ts_id (subtrees exampleTree))"
    by (simp add: exampleTree_def)
  have reg: "nodeCache exampleWorld (ts_id exampleTree) = Some 0"
    by (simp add: exampleWorld_def exampleTree_def)
  have c1: "ts_getChildAtPos 1 (TsNode 2 ExpressionStatement 0 2 []) = None"
    by (simp add: ts_getChildAtPos_def)
  have c2: "ts_getChildAtPos 1 (TsNode 1 SyntaxList 0 2 [TsNode 2 ExpressionStatement 0 2 []])
              = Some (TsNode 2 ExpressionStatement 0 2 [])"
    by (simp add: ts_getChildAtPos_def spans_def)
  have c3: "ts_getChildAtPos 1 exampleTree
              = Some (TsNode 1 SyntaxList 0 2 [TsNode 2 ExpressionStatement 0 2 []])"
    by (simp add: ts_getChildAtPos_def spans_def exampleTree_def)
  have e1: "ts_deepestAtPos 1 (TsNode 2 ExpressionStatement 0 2 []) = TsNode 2 ExpressionStatement 0 2 []"
    by (subst ts_deepestAtPos.simps) (simp only: c1 option.case)
  have e2: "ts_deepestAtPos 1 (TsNode 1 SyntaxList 0 2 [TsNode 2 ExpressionStatement 0 2 []])
              = TsNode 2 ExpressionStatement 0 2 []"
    by (subst ts_deepestAtPos.simps) (simp only: c2 option.case e1)
  have d: "ts_getDescendantAtPos 1 exampleTree = Some (TsNode 2 ExpressionStatement 0 2 [])"
    unfolding ts_getDescendantAtPos_def c3 by (simp only: option.map e2)
  have h: "ts_pos exampleTree = 0 \<and> childrenCover exampleTree \<and> (0::int) \<le> 1 \<and> 1 < ts_end exampleTree"
    by (simp add: childrenCover_def spans_def exampleTree_def)
  from getDescendantAtPos_returns_the_deepest_spanning_node[OF nav ids reg, of 1] h
  have "\<exists>w s1 m. getDescendantAtPos 0 1 exampleWorld = Some (Inr (Some w), s1)
               \<and> ts_getDescendantAtPos 1 exampleTree = Some m
               \<and> private_compilerNode (heap s1 w) = Some m
               \<and> containsRange w 1 1 s1 = (Inr True, s1)"
    by blast
  with h show ?thesis unfolding d by auto
qed

section \<open>Siblings\<close>

lemmas nav_defs =
  bindM_def returnM_def throwM_def orM_def andM_def compilerNode_def getSourceFile_def
  getNodeFromCompilerNode_def getKind_def getPos_def getEnd_def getChildren_def
  getChildrenIterator_start_def getChildrenIterator_yield_def getParent_def
  getParentOrThrow_def throwIfNullOrUndefined_def getParentSyntaxList_def
  getParentSyntaxList_or_ParentOrThrow_def getPreviousSiblings_def getNextSiblings_def

lemma eof_children: "getChildren 0 eofWorld = (Inr [1, 2], eofWorld)"
  by (simp add: nav_defs eofWorld_def exampleTree_def)

lemma eof_psl: "getParentSyntaxList 2 eofWorld = (Inr (Some 1), eofWorld)"
  by (simp add: nav_defs eofWorld_def exampleTree_def)

lemma eof_prev: "getPreviousSiblings 2 eofWorld = (Inr [3], eofWorld')"
  by (simp add: nav_defs eofWorld_def eofWorld'_def exampleTree_def)

lemma eof_next: "getNextSiblings 2 eofWorld' = (Inr [], eofWorld')"
  by (simp add: nav_defs eofWorld_def eofWorld'_def exampleTree_def)

lemma eof_sl_children: "getChildren 1 eofWorld' = (Inr [3], eofWorld')"
  by (simp add: nav_defs eofWorld_def eofWorld'_def exampleTree_def)

lemma eof_children': "getChildren 0 eofWorld' = (Inr [1, 2], eofWorld')"
  by (simp add: nav_defs eofWorld_def eofWorld'_def exampleTree_def)

text \<open>
  C7, on the file \<^verbatim>\<open>a;\<close>.  The end-of-file token (object \<open>2\<close>) is the second child of
  the source file, after the syntax list (object \<open>1\<close>).  It has no width and starts
  where the syntax list ends, so \<^verbatim>\<open>getParentSyntaxList\<close> takes the syntax list for its
  parent syntax list, although the token is not among its children.  Then
  \<^verbatim>\<open>getPreviousSiblings\<close> is the statement (object \<open>3\<close>), \<^verbatim>\<open>getNextSiblings\<close> is empty,
  and \<^verbatim>\<open>getPreviousSiblings().reverse().concat([self]).concat(getNextSiblings())\<close> is
  neither the children of the syntax list nor the children of the source file.
\<close>

theorem siblings_of_the_end_of_file_token:
  "getChildren 0 eofWorld = (Inr [1, 2], eofWorld)
   \<and> getParentSyntaxList 2 eofWorld = (Inr (Some 1), eofWorld)
   \<and> getPreviousSiblings 2 eofWorld = (Inr [3], eofWorld')
   \<and> getNextSiblings 2 eofWorld' = (Inr [], eofWorld')
   \<and> getChildren 1 eofWorld' = (Inr [3], eofWorld')
   \<and> getChildren 0 eofWorld' = (Inr [1, 2], eofWorld')
   \<and> rev [3] @ [2] @ [] \<noteq> [3::ref]
   \<and> rev [3] @ [2] @ [] \<noteq> [1, 2::ref]"
  using eof_children eof_psl eof_prev eof_next eof_sl_children eof_children' by simp

subsection \<open>Where the sibling law holds\<close>

lemma wrap_children_nav:
  assumes inj: "inj_on ts_id N" and p: "tp \<in> N"
  shows "navigable s N \<Longrightarrow> set cs \<subseteq> N \<Longrightarrow> nodeCache s (ts_id tp) = Some parent \<Longrightarrow>
     \<exists>s1. mapM (\<lambda>n. bindM (getSourceFile parent) (\<lambda>sf. getNodeFromCompilerNode n sf)) cs s
             = (Inr (map (wrapperOf s1) cs), s1)
        \<and> (\<forall>c\<in>set cs. nodeCache s1 (ts_id c) \<noteq> None)
        \<and> navigable s1 N \<and> extends s s1"
proof (induction cs arbitrary: s)
  case Nil
  then show ?case by (simp add: returnM_def extends_refl)
next
  case (Cons c cs)
  let ?f = "\<lambda>n. bindM (getSourceFile parent) (\<lambda>sf. getNodeFromCompilerNode n sf)"
  from Cons.prems have cN: "c \<in> N" and csN: "set cs \<subseteq> N" by auto
  from yield_nav[OF Cons.prems(1) inj cN p Cons.prems(3)]
  obtain w s1 where y: "getChildrenIterator_yield parent c s = (Inr w, s1)"
    and cw: "nodeCache s1 (ts_id c) = Some w"
    and nav1: "navigable s1 N" and e1: "extends s s1"
    by blast
  have fy: "?f c s = (Inr w, s1)" using y by (simp add: getChildrenIterator_yield_def)
  have pw1: "nodeCache s1 (ts_id tp) = Some parent"
    using e1 Cons.prems(3) by (auto simp: extends_def)
  from Cons.IH[OF nav1 csN pw1]
  obtain s2 where m: "mapM ?f cs s1 = (Inr (map (wrapperOf s2) cs), s2)"
    and reg2: "\<forall>c\<in>set cs. nodeCache s2 (ts_id c) \<noteq> None"
    and nav2: "navigable s2 N" and e2: "extends s1 s2"
    by blast
  have cw2: "nodeCache s2 (ts_id c) = Some w" using cw e2 by (auto simp: extends_def)
  then have w2: "wrapperOf s2 c = w" by (simp add: wrapperOf_def)
  have "mapM ?f (c # cs) s = (Inr (map (wrapperOf s2) (c # cs)), s2)"
    using fy m w2 by (simp add: bindM_def returnM_def)
  moreover have "\<forall>c'\<in>set (c # cs). nodeCache s2 (ts_id c') \<noteq> None"
    using reg2 cw2 by auto
  ultimately show ?case using nav2 extends_trans[OF e1 e2] by blast
qed

lemma getChildren_nav:
  assumes inj: "inj_on ts_id N" and nav: "navigable s N" and p: "tp \<in> N"
    and cs: "set (ts_getChildren tp) \<subseteq> N" and pw: "nodeCache s (ts_id tp) = Some parent"
  shows "\<exists>s1. getChildren parent s = (Inr (map (wrapperOf s1) (ts_getChildren tp)), s1)
        \<and> (\<forall>c\<in>set (ts_getChildren tp). nodeCache s1 (ts_id c) \<noteq> None)
        \<and> navigable s1 N \<and> extends s s1"
proof -
  have b: "private_compilerNode (heap s parent) = Some tp"
    by (rule navigableD(2)[OF nav p pw])
  from wrap_children_nav[OF inj p nav cs pw] getChildren_live[OF b]
  show ?thesis by simp
qed

lemma getParent_nav:
  assumes inj: "inj_on ts_id N" and nav: "navigable s N" and c0: "c0 \<in> N"
    and reg: "nodeCache s (ts_id c0) = Some this"
    and par: "\<forall>q. parentOf s (ts_id c0) = Some q \<longrightarrow> q \<in> N"
  shows "\<exists>s1. getParent this s = (Inr (map_option (wrapperOf s1) (parentOf s (ts_id c0))), s1)
        \<and> (\<forall>q. parentOf s (ts_id c0) = Some q \<longrightarrow> nodeCache s1 (ts_id q) \<noteq> None)
        \<and> navigable s1 N \<and> extends s s1"
proof -
  have b: "private_compilerNode (heap s this) = Some c0"
    by (rule navigableD(2)[OF nav c0 reg])
  show ?thesis
  proof (cases "parentOf s (ts_id c0)")
    case None
    then have "getParent this s = (Inr None, s)"
      using b by (simp add: getParent_def bindM_def compilerNode_def returnM_def)
    with None nav show ?thesis by (simp add: extends_refl)
  next
    case (Some q)
    with par have qN: "q \<in> N" by simp
    from yield_nav[OF nav inj qN c0 reg]
    obtain w s1 where y: "getChildrenIterator_yield this q s = (Inr w, s1)"
      and qw: "nodeCache s1 (ts_id q) = Some w"
      and nav1: "navigable s1 N" and e1: "extends s s1"
      by blast
    have "getParent this s = (Inr (Some w), s1)"
      using b Some y
      by (auto simp: getParent_def bindM_def compilerNode_def returnM_def getChildrenIterator_yield_def
               split: prod.splits sum.splits)
    with Some qw nav1 e1 show ?thesis by (simp add: wrapperOf_def)
  qed
qed

lemma same_wrapper_iff:
  assumes nav: "navigable s N" and inj: "inj_on ts_id N" and c: "c \<in> N" and c0: "c0 \<in> N"
    and cw: "nodeCache s (ts_id c) = Some w" and reg: "nodeCache s (ts_id c0) = Some this"
  shows "w = this \<longleftrightarrow> c = c0"
proof
  assume "w = this"
  with navigableD(2)[OF nav c cw] navigableD(2)[OF nav c0 reg] show "c = c0" by simp
next
  assume "c = c0"
  with cw reg show "w = this" by simp
qed

lemma getParentSyntaxList_loop_nav:
  assumes nav: "navigable s N" and inj: "inj_on ts_id N" and c0: "c0 \<in> N"
    and reg: "nodeCache s (ts_id c0) = Some this"
  shows "set cs \<subseteq> N \<Longrightarrow> \<forall>c\<in>set cs. nodeCache s (ts_id c) \<noteq> None \<Longrightarrow>
     getParentSyntaxList_loop this (ts_pos c0) (ts_end c0) (map (wrapperOf s) cs) s
       = (Inr (map_option (wrapperOf s) (ts_getParentSyntaxList_loop c0 cs)), s)"
proof (induction cs)
  case Nil
  then show ?case by (simp add: returnM_def)
next
  case (Cons c cs)
  from Cons.prems have cN: "c \<in> N" and csN: "set cs \<subseteq> N" by auto
  from Cons.prems obtain w where cw: "nodeCache s (ts_id c) = Some w" by auto
  then have w: "wrapperOf s c = w" by (simp add: wrapperOf_def)
  note b = navigableD(2)[OF nav cN cw]
  note eq = same_wrapper_iff[OF nav inj cN c0 cw reg]
  have stop: "orM (bindM (getPos w) (\<lambda>cp. returnM (cp > ts_pos c0))) (returnM (w = this)) s
              = (Inr (ts_pos c > ts_pos c0 \<or> c = c0), s)"
    using eq by (auto simp: orM_def bindM_def getPos_live[OF b] returnM_def)
  have found: "andM (bindM (getKind w) (\<lambda>k. returnM (k = SyntaxList)))
               (andM (bindM (getPos w) (\<lambda>cp. returnM (cp \<le> ts_pos c0)))
                     (bindM (getEnd w) (\<lambda>ce. returnM (ce \<ge> ts_end c0)))) s
              = (Inr (ts_kind c = SyntaxList \<and> ts_pos c \<le> ts_pos c0 \<and> ts_end c \<ge> ts_end c0), s)"
    by (auto simp: andM_def bindM_def getPos_live[OF b] getEnd_live[OF b] getKind_live[OF b] returnM_def)
  have IH: "getParentSyntaxList_loop this (ts_pos c0) (ts_end c0) (map (wrapperOf s) cs) s
       = (Inr (map_option (wrapperOf s) (ts_getParentSyntaxList_loop c0 cs)), s)"
    using Cons.IH[OF csN] Cons.prems(2) by simp
  show ?case
    using stop found IH w by (simp add: bindM_def returnM_def)
qed

lemma ts_getParentSyntaxList_loop_mem:
  "ts_getParentSyntaxList_loop c0 cs = Some l \<Longrightarrow> l \<in> set cs"
  by (induction cs) (auto split: if_splits)

lemma getParentSyntaxList_nav:
  assumes inj: "inj_on ts_id N" and nav: "navigable s N" and c0: "c0 \<in> N"
    and reg: "nodeCache s (ts_id c0) = Some this"
    and closed: "\<forall>n\<in>N. set (ts_getChildren n) \<subseteq> N"
    and par: "\<forall>q. parentOf s (ts_id c0) = Some q \<longrightarrow> q \<in> N"
  shows "\<exists>s1. getParentSyntaxList this s =
               (Inr (case parentOf s (ts_id c0) of
                       None \<Rightarrow> None
                     | Some tp \<Rightarrow> map_option (wrapperOf s1)
                                   (ts_getParentSyntaxList_loop c0 (ts_getChildren tp))), s1)
        \<and> (\<forall>tp l. parentOf s (ts_id c0) = Some tp \<longrightarrow>
               ts_getParentSyntaxList_loop c0 (ts_getChildren tp) = Some l \<longrightarrow>
               nodeCache s1 (ts_id l) \<noteq> None)
        \<and> navigable s1 N \<and> extends s s1"
proof -
  from getParent_nav[OF inj nav c0 reg par]
  obtain s1 where gp: "getParent this s = (Inr (map_option (wrapperOf s1) (parentOf s (ts_id c0))), s1)"
    and preg: "\<forall>q. parentOf s (ts_id c0) = Some q \<longrightarrow> nodeCache s1 (ts_id q) \<noteq> None"
    and nav1: "navigable s1 N" and e1: "extends s s1"
    by blast
  show ?thesis
  proof (cases "parentOf s (ts_id c0)")
    case None
    with gp have "getParentSyntaxList this s = (Inr None, s1)"
      by (simp add: getParentSyntaxList_def bindM_def returnM_def)
    with None nav1 e1 show ?thesis by simp
  next
    case (Some tp)
    with par have tpN: "tp \<in> N" by simp
    from preg Some obtain wp where pw: "nodeCache s1 (ts_id tp) = Some wp" by auto
    then have wpo: "wrapperOf s1 tp = wp" by (simp add: wrapperOf_def)
    have reg1: "nodeCache s1 (ts_id c0) = Some this" using e1 reg by (auto simp: extends_def)
    note b1 = navigableD(2)[OF nav1 c0 reg1]
    have csN: "set (ts_getChildren tp) \<subseteq> N" using closed tpN by blast
    from getChildren_nav[OF inj nav1 tpN csN pw]
    obtain s2 where gc: "getChildren wp s1 = (Inr (map (wrapperOf s2) (ts_getChildren tp)), s2)"
      and creg: "\<forall>c\<in>set (ts_getChildren tp). nodeCache s2 (ts_id c) \<noteq> None"
      and nav2: "navigable s2 N" and e2: "extends s1 s2"
      by blast
    have reg2: "nodeCache s2 (ts_id c0) = Some this" using e2 reg1 by (auto simp: extends_def)
    have b2: "private_compilerNode (heap s2 this) = Some c0"
      by (rule navigableD(2)[OF nav2 c0 reg2])
    note l = getParentSyntaxList_loop_nav[OF nav2 inj c0 reg2 csN creg]
    have "getParentSyntaxList this s =
            (Inr (map_option (wrapperOf s2) (ts_getParentSyntaxList_loop c0 (ts_getChildren tp))), s2)"
      using gp Some wpo gc l
      by (simp add: getParentSyntaxList_def bindM_def getPos_live[OF b1] getEnd_live[OF b1])
    moreover have "\<forall>l. ts_getParentSyntaxList_loop c0 (ts_getChildren tp) = Some l \<longrightarrow>
               nodeCache s2 (ts_id l) \<noteq> None"
    proof (intro allI impI)
      fix l assume "ts_getParentSyntaxList_loop c0 (ts_getChildren tp) = Some l"
      then have "l \<in> set (ts_getChildren tp)"
        by (rule ts_getParentSyntaxList_loop_mem)
      with creg show "nodeCache s2 (ts_id l) \<noteq> None" by simp
    qed
    ultimately show ?thesis using Some nav2 extends_trans[OF e1 e2] by simp
  qed
qed

lemma wrapperOf_extends:
  "extends s s' \<Longrightarrow> nodeCache s (ts_id n) \<noteq> None \<Longrightarrow> wrapperOf s' n = wrapperOf s n"
  by (auto simp: extends_def wrapperOf_def)

lemma siblingsParent_nav:
  assumes inj: "inj_on ts_id N" and nav: "navigable s N" and c0: "c0 \<in> N"
    and reg: "nodeCache s (ts_id c0) = Some this"
    and closed: "\<forall>n\<in>N. set (ts_getChildren n) \<subseteq> N"
    and par: "\<forall>q. parentOf s (ts_id c0) = Some q \<longrightarrow> q \<in> N"
    and sp: "ts_siblingsParent (parentOf s) c0 = Some tpP"
  shows "\<exists>P s1. getParentSyntaxList_or_ParentOrThrow this s = (Inr P, s1)
        \<and> nodeCache s1 (ts_id tpP) = Some P \<and> tpP \<in> N
        \<and> navigable s1 N \<and> extends s s1"
proof -
  from sp obtain tp where ptp: "parentOf s (ts_id c0) = Some tp"
    by (auto simp: ts_siblingsParent_def split: option.splits)
  with par have tpN: "tp \<in> N" by simp
  from getParentSyntaxList_nav[OF inj nav c0 reg closed par]
  obtain s1 where
    g: "getParentSyntaxList this s =
          (Inr (map_option (wrapperOf s1) (ts_getParentSyntaxList_loop c0 (ts_getChildren tp))), s1)"
    and lreg: "\<forall>l. ts_getParentSyntaxList_loop c0 (ts_getChildren tp) = Some l \<longrightarrow>
               nodeCache s1 (ts_id l) \<noteq> None"
    and nav1: "navigable s1 N" and e1: "extends s s1"
    using ptp by auto
  show ?thesis
  proof (cases "ts_getParentSyntaxList_loop c0 (ts_getChildren tp)")
    case (Some l)
    with sp ptp have l: "tpP = l" by (simp add: ts_siblingsParent_def)
    from Some have "l \<in> set (ts_getChildren tp)" by (rule ts_getParentSyntaxList_loop_mem)
    with closed tpN have lN: "l \<in> N" by blast
    from lreg Some obtain w where lw: "nodeCache s1 (ts_id l) = Some w" by auto
    have "getParentSyntaxList_or_ParentOrThrow this s = (Inr w, s1)"
      using g Some lw
      by (simp add: getParentSyntaxList_or_ParentOrThrow_def bindM_def returnM_def wrapperOf_def)
    with l lw lN nav1 e1 show ?thesis by simp
  next
    case None
    with sp ptp have l: "tpP = tp" by (simp add: ts_siblingsParent_def)
    have reg1: "nodeCache s1 (ts_id c0) = Some this" using e1 reg by (auto simp: extends_def)
    have p1: "parentOf s1 = parentOf s" using e1 by (simp add: extends_def)
    have par1: "\<forall>q. parentOf s1 (ts_id c0) = Some q \<longrightarrow> q \<in> N" using par p1 by simp
    from getParent_nav[OF inj nav1 c0 reg1 par1]
    obtain s2 where gp: "getParent this s1 = (Inr (Some (wrapperOf s2 tp)), s2)"
      and preg: "nodeCache s2 (ts_id tp) \<noteq> None"
      and nav2: "navigable s2 N" and e2: "extends s1 s2"
      using ptp p1 by auto
    have "getParentSyntaxList_or_ParentOrThrow this s = (Inr (wrapperOf s2 tp), s2)"
      using g None gp
      by (simp add: getParentSyntaxList_or_ParentOrThrow_def bindM_def returnM_def
                    getParentOrThrow_def throwIfNullOrUndefined_def)
    moreover have "nodeCache s2 (ts_id tp) = Some (wrapperOf s2 tp)"
      using preg by (auto simp: wrapperOf_def)
    ultimately show ?thesis using l tpN nav2 extends_trans[OF e1 e2] by simp
  qed
qed

lemma getChildrenIterator_start_nav:
  assumes nav: "navigable s N" and p: "tp \<in> N" and pw: "nodeCache s (ts_id tp) = Some parent"
  shows "getChildrenIterator_start parent s = (Inr (ts_getChildren tp), s)"
proof -
  note d = navigableD[OF nav p pw]
  from d(4) obtain sfn where "private_compilerNode (heap s (sourceFile (heap s parent))) = Some sfn"
    by auto
  with d(2) show ?thesis
    by (simp add: getChildrenIterator_start_def bindM_def compilerNode_def getSourceFile_def returnM_def)
qed

lemma getPreviousSiblings_loop_nav:
  assumes inj: "inj_on ts_id N" and p: "tp \<in> N" and c0: "c0 \<in> N"
  shows "navigable s N \<Longrightarrow> set cs \<subseteq> N \<Longrightarrow> nodeCache s (ts_id tp) = Some parent \<Longrightarrow>
         nodeCache s (ts_id c0) = Some this \<Longrightarrow>
     \<exists>s1. getPreviousSiblings_loop this parent cs acc s
             = (Inr (rev (map (wrapperOf s1) (takeWhile (\<lambda>c. c \<noteq> c0) cs)) @ acc), s1)
        \<and> (\<forall>c\<in>set (takeWhile (\<lambda>c. c \<noteq> c0) cs). nodeCache s1 (ts_id c) \<noteq> None)
        \<and> navigable s1 N \<and> extends s s1"
proof (induction cs arbitrary: s acc)
  case Nil
  then show ?case by (simp add: returnM_def extends_refl)
next
  case (Cons c cs)
  from Cons.prems have cN: "c \<in> N" and csN: "set cs \<subseteq> N" by auto
  from yield_nav[OF Cons.prems(1) inj cN p Cons.prems(3)]
  obtain w s1 where y: "getChildrenIterator_yield parent c s = (Inr w, s1)"
    and cw: "nodeCache s1 (ts_id c) = Some w"
    and nav1: "navigable s1 N" and e1: "extends s s1"
    by blast
  have pw1: "nodeCache s1 (ts_id tp) = Some parent" using e1 Cons.prems(3) by (auto simp: extends_def)
  have reg1: "nodeCache s1 (ts_id c0) = Some this" using e1 Cons.prems(4) by (auto simp: extends_def)
  note eq = same_wrapper_iff[OF nav1 inj cN c0 cw reg1]
  show ?case
  proof (cases "c = c0")
    case True
    with eq have "w = this" by simp
    with y have "getPreviousSiblings_loop this parent (c # cs) acc s = (Inr acc, s1)"
      by (simp add: bindM_def returnM_def)
    with True nav1 e1 show ?thesis by simp
  next
    case False
    with eq have ne: "w \<noteq> this" by simp
    from Cons.IH[OF nav1 csN pw1 reg1, of "w # acc"]
    obtain s2 where l: "getPreviousSiblings_loop this parent cs (w # acc) s1
             = (Inr (rev (map (wrapperOf s2) (takeWhile (\<lambda>c. c \<noteq> c0) cs)) @ w # acc), s2)"
      and r2: "\<forall>c\<in>set (takeWhile (\<lambda>c. c \<noteq> c0) cs). nodeCache s2 (ts_id c) \<noteq> None"
      and nav2: "navigable s2 N" and e2: "extends s1 s2"
      by blast
    have cw2: "nodeCache s2 (ts_id c) = Some w" using e2 cw by (auto simp: extends_def)
    then have w2: "wrapperOf s2 c = w" by (simp add: wrapperOf_def)
    have "getPreviousSiblings_loop this parent (c # cs) acc s
            = (Inr (rev (map (wrapperOf s2) (takeWhile (\<lambda>c. c \<noteq> c0) (c # cs))) @ acc), s2)"
      using y ne l False w2 by (simp add: bindM_def)
    moreover have "\<forall>x\<in>set (takeWhile (\<lambda>c. c \<noteq> c0) (c # cs)). nodeCache s2 (ts_id x) \<noteq> None"
      using False r2 cw2 by simp
    ultimately show ?thesis using nav2 extends_trans[OF e1 e2] by blast
  qed
qed

lemma getNextSiblings_loop_nav:
  assumes inj: "inj_on ts_id N" and p: "tp \<in> N" and c0: "c0 \<in> N"
  shows "navigable s N \<Longrightarrow> set cs \<subseteq> N \<Longrightarrow> nodeCache s (ts_id tp) = Some parent \<Longrightarrow>
         nodeCache s (ts_id c0) = Some this \<Longrightarrow>
     \<exists>s1. getNextSiblings_loop this parent cs found acc s
             = (Inr (acc @ map (wrapperOf s1)
                        (if found then cs else drop 1 (dropWhile (\<lambda>c. c \<noteq> c0) cs))), s1)
        \<and> (\<forall>c\<in>set cs. nodeCache s1 (ts_id c) \<noteq> None)
        \<and> navigable s1 N \<and> extends s s1"
proof (induction cs arbitrary: s acc found)
  case Nil
  then show ?case by (simp add: returnM_def extends_refl)
next
  case (Cons c cs)
  from Cons.prems have cN: "c \<in> N" and csN: "set cs \<subseteq> N" by auto
  from yield_nav[OF Cons.prems(1) inj cN p Cons.prems(3)]
  obtain w s1 where y: "getChildrenIterator_yield parent c s = (Inr w, s1)"
    and cw: "nodeCache s1 (ts_id c) = Some w"
    and nav1: "navigable s1 N" and e1: "extends s s1"
    by blast
  have pw1: "nodeCache s1 (ts_id tp) = Some parent" using e1 Cons.prems(3) by (auto simp: extends_def)
  have reg1: "nodeCache s1 (ts_id c0) = Some this" using e1 Cons.prems(4) by (auto simp: extends_def)
  note eq = same_wrapper_iff[OF nav1 inj cN c0 cw reg1]
  show ?case
  proof (cases found)
    case True
    from Cons.IH[OF nav1 csN pw1 reg1, of True "acc @ [w]"]
    obtain s2 where l: "getNextSiblings_loop this parent cs True (acc @ [w]) s1
             = (Inr ((acc @ [w]) @ map (wrapperOf s2) cs), s2)"
      and r2: "\<forall>c\<in>set cs. nodeCache s2 (ts_id c) \<noteq> None"
      and nav2: "navigable s2 N" and e2: "extends s1 s2"
      by auto
    have cw2: "nodeCache s2 (ts_id c) = Some w" using e2 cw by (auto simp: extends_def)
    then have w2: "wrapperOf s2 c = w" by (simp add: wrapperOf_def)
    have "getNextSiblings_loop this parent (c # cs) found acc s
            = (Inr (acc @ map (wrapperOf s2) (c # cs)), s2)"
      using y l True w2 by (simp add: bindM_def)
    moreover have "\<forall>x\<in>set (c # cs). nodeCache s2 (ts_id x) \<noteq> None"
      using r2 cw2 by simp
    ultimately show ?thesis using True nav2 extends_trans[OF e1 e2] by auto
  next
    case False
    from Cons.IH[OF nav1 csN pw1 reg1, of "w = this" acc]
    obtain s2 where l: "getNextSiblings_loop this parent cs (w = this) acc s1
             = (Inr (acc @ map (wrapperOf s2)
                        (if w = this then cs else drop 1 (dropWhile (\<lambda>c. c \<noteq> c0) cs))), s2)"
      and r2: "\<forall>c\<in>set cs. nodeCache s2 (ts_id c) \<noteq> None"
      and nav2: "navigable s2 N" and e2: "extends s1 s2"
      by blast
    have cw2: "nodeCache s2 (ts_id c) = Some w" using e2 cw by (auto simp: extends_def)
    have "getNextSiblings_loop this parent (c # cs) found acc s
            = (Inr (acc @ map (wrapperOf s2) (drop 1 (dropWhile (\<lambda>c. c \<noteq> c0) (c # cs)))), s2)"
      using y l False eq by (simp add: bindM_def)
    moreover have "\<forall>x\<in>set (c # cs). nodeCache s2 (ts_id x) \<noteq> None"
      using r2 cw2 by simp
    ultimately show ?thesis using False nav2 extends_trans[OF e1 e2] by auto
  qed
qed

lemma siblings_split:
  "c0 \<in> set cs \<Longrightarrow> takeWhile (\<lambda>c. c \<noteq> c0) cs @ [c0] @ drop 1 (dropWhile (\<lambda>c. c \<noteq> c0) cs) = cs"
  by (induction cs) auto

lemma getPreviousSiblings_nav:
  assumes inj: "inj_on ts_id N" and nav: "navigable s N" and c0: "c0 \<in> N"
    and reg: "nodeCache s (ts_id c0) = Some this"
    and closed: "\<forall>n\<in>N. set (ts_getChildren n) \<subseteq> N"
    and par: "\<forall>q. parentOf s (ts_id c0) = Some q \<longrightarrow> q \<in> N"
    and sp: "ts_siblingsParent (parentOf s) c0 = Some tpP"
  shows "\<exists>s1. getPreviousSiblings this s
             = (Inr (rev (map (wrapperOf s1) (takeWhile (\<lambda>c. c \<noteq> c0) (ts_getChildren tpP)))), s1)
        \<and> (\<forall>c\<in>set (takeWhile (\<lambda>c. c \<noteq> c0) (ts_getChildren tpP)). nodeCache s1 (ts_id c) \<noteq> None)
        \<and> navigable s1 N \<and> extends s s1"
proof -
  from siblingsParent_nav[OF inj nav c0 reg closed par sp]
  obtain P sa where g: "getParentSyntaxList_or_ParentOrThrow this s = (Inr P, sa)"
    and pw: "nodeCache sa (ts_id tpP) = Some P" and pN: "tpP \<in> N"
    and nava: "navigable sa N" and ea: "extends s sa"
    by blast
  have rega: "nodeCache sa (ts_id c0) = Some this" using ea reg by (auto simp: extends_def)
  have csN: "set (ts_getChildren tpP) \<subseteq> N" using closed pN by blast
  note st = getChildrenIterator_start_nav[OF nava pN pw]
  from getPreviousSiblings_loop_nav[OF inj pN c0 nava csN pw rega, of "[]"]
  obtain s1 where l: "getPreviousSiblings_loop this P (ts_getChildren tpP) [] sa
             = (Inr (rev (map (wrapperOf s1) (takeWhile (\<lambda>c. c \<noteq> c0) (ts_getChildren tpP))) @ []), s1)"
    and r1: "\<forall>c\<in>set (takeWhile (\<lambda>c. c \<noteq> c0) (ts_getChildren tpP)). nodeCache s1 (ts_id c) \<noteq> None"
    and nav1: "navigable s1 N" and e1: "extends sa s1"
    by blast
  have "getPreviousSiblings this s
          = (Inr (rev (map (wrapperOf s1) (takeWhile (\<lambda>c. c \<noteq> c0) (ts_getChildren tpP)))), s1)"
    using g st l by (simp add: getPreviousSiblings_def bindM_def)
  with r1 nav1 extends_trans[OF ea e1] show ?thesis by blast
qed

lemma getNextSiblings_nav:
  assumes inj: "inj_on ts_id N" and nav: "navigable s N" and c0: "c0 \<in> N"
    and reg: "nodeCache s (ts_id c0) = Some this"
    and closed: "\<forall>n\<in>N. set (ts_getChildren n) \<subseteq> N"
    and par: "\<forall>q. parentOf s (ts_id c0) = Some q \<longrightarrow> q \<in> N"
    and sp: "ts_siblingsParent (parentOf s) c0 = Some tpP"
  shows "\<exists>s1. getNextSiblings this s
             = (Inr (map (wrapperOf s1) (drop 1 (dropWhile (\<lambda>c. c \<noteq> c0) (ts_getChildren tpP)))), s1)
        \<and> (\<forall>c\<in>set (ts_getChildren tpP). nodeCache s1 (ts_id c) \<noteq> None)
        \<and> navigable s1 N \<and> extends s s1"
proof -
  from siblingsParent_nav[OF inj nav c0 reg closed par sp]
  obtain P sa where g: "getParentSyntaxList_or_ParentOrThrow this s = (Inr P, sa)"
    and pw: "nodeCache sa (ts_id tpP) = Some P" and pN: "tpP \<in> N"
    and nava: "navigable sa N" and ea: "extends s sa"
    by blast
  have rega: "nodeCache sa (ts_id c0) = Some this" using ea reg by (auto simp: extends_def)
  have csN: "set (ts_getChildren tpP) \<subseteq> N" using closed pN by blast
  note st = getChildrenIterator_start_nav[OF nava pN pw]
  from getNextSiblings_loop_nav[OF inj pN c0 nava csN pw rega, of False "[]"]
  obtain s1 where l: "getNextSiblings_loop this P (ts_getChildren tpP) False [] sa
             = (Inr (map (wrapperOf s1) (drop 1 (dropWhile (\<lambda>c. c \<noteq> c0) (ts_getChildren tpP)))), s1)"
    and r1: "\<forall>c\<in>set (ts_getChildren tpP). nodeCache s1 (ts_id c) \<noteq> None"
    and nav1: "navigable s1 N" and e1: "extends sa s1"
    by auto
  have "getNextSiblings this s
          = (Inr (map (wrapperOf s1) (drop 1 (dropWhile (\<lambda>c. c \<noteq> c0) (ts_getChildren tpP)))), s1)"
    using g st l by (simp add: getNextSiblings_def bindM_def)
  with r1 nav1 extends_trans[OF ea e1] show ?thesis by blast
qed

text \<open>
  The sibling law where it holds.  In a state whose cache is coherent, let \<open>tpP\<close> be the
  compiler node that \<^verbatim>\<open>getParentSyntaxList() || getParentOrThrow()\<close> selects for the
  node \<open>c0\<close>.  When \<open>c0\<close> is one of the children of \<open>tpP\<close>, both sibling queries return,
  \<^verbatim>\<open>getPreviousSiblings\<close> is closest-first, and
  \<^verbatim>\<open>getPreviousSiblings().reverse().concat([this]).concat(getNextSiblings())\<close> is the
  children sequence of the wrapper that stands for \<open>tpP\<close>.
\<close>

theorem siblings_concatenate_to_the_children:
  assumes inj: "inj_on ts_id N" and nav: "navigable s N" and c0: "c0 \<in> N"
    and reg: "nodeCache s (ts_id c0) = Some this"
    and closed: "\<forall>n\<in>N. set (ts_getChildren n) \<subseteq> N"
    and par: "\<forall>q. parentOf s (ts_id c0) = Some q \<longrightarrow> q \<in> N"
    and sp: "ts_siblingsParent (parentOf s) c0 = Some tpP"
    and mem: "c0 \<in> set (ts_getChildren tpP)"
  shows "\<exists>prev s1 nxt s2 P s3 cs s4.
           getPreviousSiblings this s = (Inr prev, s1)
         \<and> getNextSiblings this s1 = (Inr nxt, s2)
         \<and> getParentSyntaxList_or_ParentOrThrow this s2 = (Inr P, s3)
         \<and> getChildren P s3 = (Inr cs, s4)
         \<and> rev prev @ [this] @ nxt = cs
         \<and> map (\<lambda>w. private_compilerNode (heap s4 w)) cs = map Some (ts_getChildren tpP)
         \<and> map (\<lambda>w. private_compilerNode (heap s4 w)) prev
             = map Some (rev (takeWhile (\<lambda>c. c \<noteq> c0) (ts_getChildren tpP)))"
proof -
  let ?cs = "ts_getChildren tpP"
  let ?tw = "takeWhile (\<lambda>c. c \<noteq> c0) ?cs"
  let ?dr = "drop 1 (dropWhile (\<lambda>c. c \<noteq> c0) ?cs)"
  have cs_eq: "?tw @ [c0] @ ?dr = ?cs" by (rule siblings_split[OF mem])
  from getPreviousSiblings_nav[OF inj nav c0 reg closed par sp]
  obtain s1 where p: "getPreviousSiblings this s = (Inr (rev (map (wrapperOf s1) ?tw)), s1)"
    and r1: "\<forall>c\<in>set ?tw. nodeCache s1 (ts_id c) \<noteq> None"
    and nav1: "navigable s1 N" and e1: "extends s s1"
    by blast
  have reg1: "nodeCache s1 (ts_id c0) = Some this" using e1 reg by (auto simp: extends_def)
  have po1: "parentOf s1 = parentOf s" using e1 by (simp add: extends_def)
  have par1: "\<forall>q. parentOf s1 (ts_id c0) = Some q \<longrightarrow> q \<in> N" using par po1 by simp
  have sp1: "ts_siblingsParent (parentOf s1) c0 = Some tpP" using sp po1 by simp
  from getNextSiblings_nav[OF inj nav1 c0 reg1 closed par1 sp1]
  obtain s2 where n: "getNextSiblings this s1 = (Inr (map (wrapperOf s2) ?dr), s2)"
    and r2: "\<forall>c\<in>set ?cs. nodeCache s2 (ts_id c) \<noteq> None"
    and nav2: "navigable s2 N" and e2: "extends s1 s2"
    by blast
  have reg2: "nodeCache s2 (ts_id c0) = Some this" using e2 reg1 by (auto simp: extends_def)
  have po2: "parentOf s2 = parentOf s" using e2 po1 by (simp add: extends_def)
  have par2: "\<forall>q. parentOf s2 (ts_id c0) = Some q \<longrightarrow> q \<in> N" using par po2 by simp
  have sp2: "ts_siblingsParent (parentOf s2) c0 = Some tpP" using sp po2 by simp
  from siblingsParent_nav[OF inj nav2 c0 reg2 closed par2 sp2]
  obtain P s3 where g: "getParentSyntaxList_or_ParentOrThrow this s2 = (Inr P, s3)"
    and pw: "nodeCache s3 (ts_id tpP) = Some P" and pN: "tpP \<in> N"
    and nav3: "navigable s3 N" and e3: "extends s2 s3"
    by blast
  have csN: "set ?cs \<subseteq> N" using closed pN by blast
  from getChildren_nav[OF inj nav3 pN csN pw]
  obtain s4 where c: "getChildren P s3 = (Inr (map (wrapperOf s4) ?cs), s4)"
    and r4: "\<forall>c\<in>set ?cs. nodeCache s4 (ts_id c) \<noteq> None"
    and nav4: "navigable s4 N" and e4: "extends s3 s4"
    by blast
  have e24: "extends s2 s4" by (rule extends_trans[OF e3 e4])
  have e14: "extends s1 s4" by (rule extends_trans[OF e2 e24])
  have w1: "map (wrapperOf s1) ?tw = map (wrapperOf s4) ?tw"
    using r1 wrapperOf_extends[OF e14] by (intro map_cong) auto
  have drsub: "set ?dr \<subseteq> set ?cs"
    by (metis set_drop_subset set_dropWhileD subset_iff)
  have w2: "map (wrapperOf s2) ?dr = map (wrapperOf s4) ?dr"
    using r2 drsub wrapperOf_extends[OF e24] by (intro map_cong) auto
  have "nodeCache s4 (ts_id c0) = Some this" using e24 reg2 by (auto simp: extends_def)
  then have w0: "wrapperOf s4 c0 = this" by (simp add: wrapperOf_def)
  have cat: "rev (rev (map (wrapperOf s1) ?tw)) @ [this] @ map (wrapperOf s2) ?dr
               = map (wrapperOf s4) ?cs"
  proof -
    have "rev (rev (map (wrapperOf s1) ?tw)) @ [this] @ map (wrapperOf s2) ?dr
            = map (wrapperOf s4) (?tw @ [c0] @ ?dr)"
      using w1 w2 w0 by simp
    then show ?thesis unfolding cs_eq .
  qed
  have bound: "\<And>x. x \<in> set ?cs \<Longrightarrow> private_compilerNode (heap s4 (wrapperOf s4 x)) = Some x"
  proof -
    fix x assume x: "x \<in> set ?cs"
    with csN have xN: "x \<in> N" by blast
    from r4 x obtain w where xw: "nodeCache s4 (ts_id x) = Some w" by auto
    from navigableD(2)[OF nav4 xN xw] xw show "private_compilerNode (heap s4 (wrapperOf s4 x)) = Some x"
      by (simp add: wrapperOf_def)
  qed
  have m1: "map (\<lambda>w. private_compilerNode (heap s4 w)) (map (wrapperOf s4) ?cs) = map Some ?cs"
    using bound by (simp add: map_idI)
  have twsub: "set ?tw \<subseteq> set ?cs" by (auto dest: set_takeWhileD)
  have m2: "map (\<lambda>w. private_compilerNode (heap s4 w)) (rev (map (wrapperOf s1) ?tw))
              = map Some (rev ?tw)"
    unfolding w1 using bound twsub by (auto simp: rev_map)
  from p n g c cat m1 m2 show ?thesis by blast
qed

theorem siblings_concatenate_to_the_children_witness:
  "\<exists>prev s1 nxt s2 P s3 cs s4.
           getPreviousSiblings 3 eofWorld' = (Inr prev, s1)
         \<and> getNextSiblings 3 s1 = (Inr nxt, s2)
         \<and> getParentSyntaxList_or_ParentOrThrow 3 s2 = (Inr P, s3)
         \<and> getChildren P s3 = (Inr cs, s4)
         \<and> rev prev @ [3] @ nxt = cs
         \<and> map (\<lambda>w. private_compilerNode (heap s4 w)) cs
             = [Some (TsNode 2 ExpressionStatement 0 2 [])]
         \<and> map (\<lambda>w. private_compilerNode (heap s4 w)) prev = []"
  using siblings_concatenate_to_the_children
    [of "set (subtrees exampleTree)" "eofWorld'" "TsNode 2 ExpressionStatement 0 2 []" 3
        "TsNode 1 SyntaxList 0 2 [TsNode 2 ExpressionStatement 0 2 []]"]
  by (simp add: navigable_def eofWorld'_def eofWorld_def exampleTree_def ts_siblingsParent_def)

section \<open>The unwrap handler\<close>












































end
